theory Spec2Isabelle
  imports Complex_Main "HOL-Library.Word" "HOL-Library.AList" "HOL-Library.Multiset"
begin

section \<open>Data model\<close>

text \<open>
  The chunked file transfer of the share-files page: the chunker and the received-file
  processing of \<^verbatim>\<open>src/components/file-worker-manager.tsx\<close>, the assembler of
  \<^verbatim>\<open>src/workers/file-worker.ts\<close> and the transfer bookkeeping of
  \<^verbatim>\<open>src/app/sharefiles/page.tsx\<close>.

  A \<^verbatim>\<open>Uint8Array\<close> is a list of bytes. Sizes, counters and time stamps are
  natural numbers; a chunk index read from a peer message is an integer.
\<close>

type_synonym Uint8Array = "8 word list"

text \<open>\<^verbatim>\<open>interface FileMetadata { id, name, type, size, totalChunks }\<close>\<close>

record FileMetadata =
  id_m :: string
  name_m :: string
  type_m :: string
  size_m :: nat
  totalChunks :: nat

text \<open>\<^verbatim>\<open>interface FileChunk { fileId, index, data }\<close>\<close>

record FileChunk =
  fileId :: string
  index :: int
  data :: Uint8Array

text \<open>The part of a browser \<^verbatim>\<open>File\<close> the chunker reads: name, type and content
  (\<^verbatim>\<open>file.size\<close> is the length of the content).\<close>

record File =
  name_f :: string
  type_f :: string
  bytes_f :: Uint8Array

definition size_f :: "File \<Rightarrow> nat" where
  "size_f file = length (bytes_f file)"

text \<open>
  A JavaScript number that results from a division of two counters. The quotient is kept
  exact (the rounding of IEEE doubles is not modelled); a division by zero gives
  \<^verbatim>\<open>Infinity\<close>, or \<^verbatim>\<open>NaN\<close> for \<^verbatim>\<open>0 / 0\<close>.
\<close>

datatype jsnum = Num rat | Infinity | NaN

text \<open>\<^verbatim>\<open>(a / b) * 100\<close>\<close>

definition percent :: "nat \<Rightarrow> nat \<Rightarrow> jsnum" where
  "percent a b =
     (if b = 0 then (if a = 0 then NaN else Infinity)
      else Num (of_nat a / of_nat b * 100))"

text \<open>
  A JavaScript \<^verbatim>\<open>Map\<close>: the entries in insertion order, one per key.
  \<^verbatim>\<open>set\<close> replaces the value of a key that is present, where it stands, and appends
  a new key at the end; \<^verbatim>\<open>size\<close> is the number of entries.
\<close>

type_synonym ('k, 'v) jsmap = "('k \<times> 'v) list"

fun map_set :: "'k \<Rightarrow> 'v \<Rightarrow> ('k, 'v) jsmap \<Rightarrow> ('k, 'v) jsmap" where
  "map_set k v [] = [(k, v)]"
| "map_set k v ((k', v') # m) =
     (if k' = k then (k, v) # m else (k', v') # map_set k v m)"

definition map_size :: "('k, 'v) jsmap \<Rightarrow> nat" where
  "map_size m = length m"

definition map_get :: "('k, 'v) jsmap \<Rightarrow> 'k \<Rightarrow> 'v option" where
  "map_get m k = map_of m k"

section \<open>The chunker (\<^verbatim>\<open>chunkFile\<close> of file-worker-manager.tsx)\<close>

definition chunkSize :: nat where
  "chunkSize = 16 * 1024"

text \<open>\<^verbatim>\<open>Math.ceil(file.size / chunkSize)\<close>\<close>

definition totalChunksOf :: "nat \<Rightarrow> nat" where
  "totalChunksOf n = nat \<lceil>(of_nat n :: rat) / of_nat chunkSize\<rceil>"

text \<open>\<^verbatim>\<open>blob.slice(start, end)\<close> for non-negative bounds: both are clamped to the
  size, and an end before the start gives the empty blob.\<close>

definition slice :: "Uint8Array \<Rightarrow> nat \<Rightarrow> nat \<Rightarrow> Uint8Array" where
  "slice bs start stop =
     (let s = min start (length bs); e = min stop (length bs)
      in take (e - s) (drop s bs))"

text \<open>
  What happens to the read of one chunk: the reader loads it and the callbacks return
  (\<open>Loaded\<close>), the reader reports an error (\<open>ReadError\<close>), or \<^verbatim>\<open>onChunkReady\<close>
  throws (\<open>HandlerThrows\<close>). The callbacks invoked by the chunker are recorded in order;
  after an error no further chunk is read, and a call of \<^verbatim>\<open>onChunkReady\<close> that throws
  is not recorded as a chunk handed over.
\<close>

datatype readOutcome = Loaded | ReadError | HandlerThrows

datatype callback =
    OnChunkReady FileChunk
  | OnProgress jsnum
  | OnComplete
  | OnError string

function processNextChunk ::
  "File \<Rightarrow> (nat \<Rightarrow> readOutcome) \<Rightarrow> string \<Rightarrow> nat \<Rightarrow> nat \<Rightarrow> callback list" where
  "processNextChunk file reads fid nChunks currentChunk =
     (if currentChunk \<ge> nChunks then [OnComplete]
      else
        let start = currentChunk * chunkSize;
            stop = min (start + chunkSize) (size_f file);
            chunk = slice (bytes_f file) start stop
        in case reads currentChunk of
             Loaded \<Rightarrow>
               OnChunkReady \<lparr>fileId = fid, index = int currentChunk, data = chunk\<rparr>
               # OnProgress (percent (currentChunk + 1) nChunks)
               # processNextChunk file reads fid nChunks (currentChunk + 1)
           | HandlerThrows \<Rightarrow> [OnError ''Failed to process file chunk'']
           | ReadError \<Rightarrow> [OnError ''Failed to read file chunk''])"
  by pat_completeness auto
termination
  by (relation "measure (\<lambda>(file, reads, fid, nChunks, currentChunk). nChunks - currentChunk)") auto

declare processNextChunk.simps [simp del]

text \<open>\<^verbatim>\<open>chunkFile\<close> returns the file id (drawn from the clock and the random generator,
  here an argument) and the metadata; the third component is the sequence of callbacks
  it makes.\<close>

definition chunkFile ::
  "File \<Rightarrow> (nat \<Rightarrow> readOutcome) \<Rightarrow> string \<Rightarrow> string \<times> FileMetadata \<times> callback list" where
  "chunkFile file reads fid =
     (let nChunks = totalChunksOf (size_f file);
          metadata = \<lparr>id_m = fid, name_m = name_f file, type_m = type_f file,
                      size_m = size_f file, totalChunks = nChunks\<rparr>
      in (fid, metadata, processNextChunk file reads fid nChunks 0))"

text \<open>The chunks handed to \<^verbatim>\<open>onChunkReady\<close>, in the order of the calls.\<close>

fun emitted :: "callback list \<Rightarrow> FileChunk list" where
  "emitted [] = []"
| "emitted (OnChunkReady c # cbs) = c # emitted cbs"
| "emitted (_ # cbs) = emitted cbs"

section \<open>Processing a received file (\<^verbatim>\<open>processReceivedFile\<close>, \<^verbatim>\<open>assembleFile\<close>)\<close>

text \<open>\<^verbatim>\<open>Array.from(chunks.entries()).sort(([a], [b]) => a - b).map(([, chunk]) => chunk)\<close>\<close>

definition sortedChunks :: "(int, Uint8Array) jsmap \<Rightarrow> Uint8Array list" where
  "sortedChunks chunks = map snd (sort_key fst chunks)"

datatype workerRequest = ASSEMBLE_FILE string "Uint8Array list" FileMetadata

text \<open>Nothing is posted when the worker was not initialised.\<close>

definition processReceivedFile ::
  "bool \<Rightarrow> string \<Rightarrow> (int, Uint8Array) jsmap \<Rightarrow> FileMetadata \<Rightarrow> workerRequest option" where
  "processReceivedFile workerReady fid chunks metadata =
     (if \<not> workerReady then None
      else Some (ASSEMBLE_FILE fid (sortedChunks chunks) metadata))"

text \<open>\<^verbatim>\<open>fileData.set(chunk, offset)\<close> throws a \<^verbatim>\<open>RangeError\<close> when the chunk does not
  fit into the buffer at the offset.\<close>

datatype jsError = RangeError

definition typed_set :: "Uint8Array \<Rightarrow> Uint8Array \<Rightarrow> nat \<Rightarrow> jsError + Uint8Array" where
  "typed_set fileData chunk offset =
     (if offset + length chunk > length fileData then Inl RangeError
      else Inr (take offset fileData @ chunk @ drop (offset + length chunk) fileData))"

text \<open>The loop \<^verbatim>\<open>for (const chunk of chunks) { fileData.set(chunk, offset); offset += chunk.length }\<close>\<close>

fun copyChunks :: "Uint8Array \<Rightarrow> nat \<Rightarrow> Uint8Array list \<Rightarrow> jsError + Uint8Array" where
  "copyChunks fileData offset [] = Inr fileData"
| "copyChunks fileData offset (chunk # chunks) =
     (case typed_set fileData chunk offset of
        Inl e \<Rightarrow> Inl e
      | Inr fileData' \<Rightarrow> copyChunks fileData' (offset + length chunk) chunks)"

text \<open>A \<^verbatim>\<open>Blob\<close>: its bytes and its type.\<close>

record Blob =
  bytes_b :: Uint8Array
  type_b :: string

datatype workerReply =
    FILE_ASSEMBLED string Blob FileMetadata
  | ERROR string jsError

text \<open>\<^verbatim>\<open>assembleFile\<close>: a buffer of \<^verbatim>\<open>metadata.size\<close> zero bytes, the chunks copied
  into it one after the other, and the reply posted to the main thread.\<close>

definition assembleFile :: "workerRequest \<Rightarrow> workerReply" where
  "assembleFile request =
     (case request of ASSEMBLE_FILE fid chunks metadata \<Rightarrow>
        (case copyChunks (replicate (size_m metadata) 0) 0 chunks of
           Inl e \<Rightarrow> ERROR fid e
         | Inr fileData \<Rightarrow>
             FILE_ASSEMBLED fid \<lparr>bytes_b = fileData, type_b = type_m metadata\<rparr> metadata))"

text \<open>The accumulation of chunks into the index-to-data mapping, one \<^verbatim>\<open>chunks.set\<close>
  per chunk, in the order of arrival.\<close>

definition accumulate :: "(int, Uint8Array) jsmap \<Rightarrow> FileChunk list \<Rightarrow> (int, Uint8Array) jsmap" where
  "accumulate m cs = foldl (\<lambda>m c. map_set (index c) (data c) m) m cs"

section \<open>The transfer registry (\<^verbatim>\<open>handleData\<close> of sharefiles/page.tsx)\<close>

datatype status = Preparing | Transferring | Paused | Completed | Cancelled | Error

datatype direction = Sending | Receiving

text \<open>\<^verbatim>\<open>interface ActiveTransfer\<close>; an optional field is an \<open>option\<close>.\<close>

record ActiveTransfer =
  id_t :: string
  metadata :: FileMetadata
  progress :: jsnum
  status :: status
  direction :: direction
  file_t :: "File option"
  chunks :: "(int, Uint8Array) jsmap option"
  receivedSize :: nat
  startTime :: nat
  pausedAt :: "nat option"
  error_t :: "string option"

text \<open>
  A message from the peer, told apart as \<^verbatim>\<open>handleData\<close> does: an object with a
  \<^verbatim>\<open>metadata\<close> key; else one with \<^verbatim>\<open>fileId\<close>, \<^verbatim>\<open>index\<close> and \<^verbatim>\<open>data\<close>;
  else one with a \<^verbatim>\<open>control\<close> object that has a \<^verbatim>\<open>fileId\<close> (and an action, any
  string); anything else is ignored.
\<close>

datatype message =
    MetadataMsg FileMetadata
  | ChunkMsg string int Uint8Array
  | ControlMsg string string
  | OtherMsg

text \<open>
  What a handler does besides updating the list of active transfers: a toast, the call
  of \<^verbatim>\<open>handleCompleteFileReceived\<close> on a copy of the record 100 ms later, the removal of
  a transfer 3000 ms later. The copy holds the record's mapping as it is when the call
  is scheduled. (In the source the copy and the record share one \<^verbatim>\<open>Map\<close> object; the
  two differ only when a chunk is stored for the record after the call was scheduled,
  which needs a \<^verbatim>\<open>resume\<close> message in between. No statement below looks into a
  scheduled copy in such a run.)
\<close>

datatype effect =
    Toast string string
  | CompleteLater ActiveTransfer
  | RemoveLater string

text \<open>The record created for a metadata message; \<open>now\<close> is \<^verbatim>\<open>Date.now()\<close>.\<close>

definition newTransfer :: "nat \<Rightarrow> FileMetadata \<Rightarrow> ActiveTransfer" where
  "newTransfer now m =
     \<lparr>id_t = id_m m, metadata = m, progress = Num 0, status = Transferring,
      direction = Receiving, file_t = None, chunks = Some [], receivedSize = 0,
      startTime = now, pausedAt = None, error_t = None\<rparr>"

text \<open>The function mapped over the active transfers when a chunk message arrives.\<close>

definition receiveChunk ::
  "string \<Rightarrow> int \<Rightarrow> Uint8Array \<Rightarrow> ActiveTransfer \<Rightarrow> ActiveTransfer \<times> effect list" where
  "receiveChunk fid idx dat transfer =
     (if id_t transfer = fid \<and> status transfer = Transferring then
        let chunks' = map_set idx dat (case chunks transfer of None \<Rightarrow> [] | Some m \<Rightarrow> m);
            receivedSize' = receivedSize transfer + length dat;
            progress' = percent (map_size chunks') (totalChunks (metadata transfer));
            isComplete = (map_size chunks' = totalChunks (metadata transfer))
        in (transfer\<lparr>chunks := Some chunks', receivedSize := receivedSize',
                      progress := progress',
                      status := (if isComplete then Completed else Transferring)\<rparr>,
            if isComplete
            then [CompleteLater (transfer\<lparr>chunks := Some chunks',
                                           receivedSize := receivedSize',
                                           progress := Num 100\<rparr>)]
            else [])
      else (transfer, []))"

text \<open>The function mapped over the active transfers when a control message arrives:
  \<^verbatim>\<open>t.id === fileId ? { ...t, status } : t\<close>.\<close>

definition setStatus :: "string \<Rightarrow> status \<Rightarrow> ActiveTransfer \<Rightarrow> ActiveTransfer" where
  "setStatus fid st t = (if id_t t = fid then t\<lparr>status := st\<rparr> else t)"

definition handleData ::
  "nat \<Rightarrow> ActiveTransfer list \<Rightarrow> message \<Rightarrow> ActiveTransfer list \<times> effect list" where
  "handleData now prev msg =
     (case msg of
        MetadataMsg m \<Rightarrow>
          (prev @ [newTransfer now m],
           [Toast ''Receiving File'' (''Starting to receive: '' @ name_m m)])
      | ChunkMsg fid idx dat \<Rightarrow>
          (map (\<lambda>t. fst (receiveChunk fid idx dat t)) prev,
           concat (map (\<lambda>t. snd (receiveChunk fid idx dat t)) prev))
      | ControlMsg fid action \<Rightarrow>
          (if action = ''pause'' then (map (setStatus fid Paused) prev, [])
           else if action = ''resume'' then (map (setStatus fid Transferring) prev, [])
           else if action = ''cancel''
           then (map (setStatus fid Cancelled) prev, [RemoveLater fid])
           else (prev, []))
      | OtherMsg \<Rightarrow> (prev, []))"

text \<open>\<^verbatim>\<open>setActiveTransfers((prev) => prev.filter((t) => t.id !== fileId))\<close>, run by
  the removal timer and by \<^verbatim>\<open>handleFileAssembled\<close>.\<close>

definition removeTransfer :: "string \<Rightarrow> ActiveTransfer list \<Rightarrow> ActiveTransfer list" where
  "removeTransfer fid prev = filter (\<lambda>t. id_t t \<noteq> fid) prev"

text \<open>\<^verbatim>\<open>handleCompleteFileReceived\<close>: the new list of active transfers and the request
  posted to the worker, if any.\<close>

definition handleCompleteFileReceived ::
  "bool \<Rightarrow> ActiveTransfer \<Rightarrow> ActiveTransfer list
     \<Rightarrow> ActiveTransfer list \<times> workerRequest option" where
  "handleCompleteFileReceived workerReady transfer prev =
     (case chunks transfer of
        None \<Rightarrow> (prev, None)
      | Some m \<Rightarrow>
          if map_size m = totalChunks (metadata transfer)
          then (map (\<lambda>t. if id_t t = id_t transfer
                          then t\<lparr>status := Completed, progress := Num 100\<rparr> else t) prev,
                processReceivedFile workerReady (id_t transfer) m (metadata transfer))
          else (prev, None))"

text \<open>
  The messages of a connection handled one after the other, each at its arrival time.
  What the handlers schedule is collected in order and not carried out: \<open>run\<close> gives
  the list of active transfers as it is when the last message has been handled, if no
  timer has fired and no reply of the worker has arrived in between. The timers and
  the replies of the worker are events of \<open>play\<close> below, which is \<open>run\<close> on
  messages alone (lemma \<open>play_run\<close>).
\<close>

fun run :: "ActiveTransfer list \<Rightarrow> (nat \<times> message) list \<Rightarrow> ActiveTransfer list \<times> effect list" where
  "run ts [] = (ts, [])"
| "run ts ((now, msg) # ms) =
     (case handleData now ts msg of
        (ts', fx) \<Rightarrow> (case run ts' ms of (ts'', fx') \<Rightarrow> (ts'', fx @ fx')))"

text \<open>The calls of \<^verbatim>\<open>handleCompleteFileReceived\<close> scheduled for a file id.\<close>

fun completions :: "string \<Rightarrow> effect list \<Rightarrow> ActiveTransfer list" where
  "completions fid [] = []"
| "completions fid (CompleteLater t # fx) =
     (if id_t t = fid then t # completions fid fx else completions fid fx)"
| "completions fid (_ # fx) = completions fid fx"

section \<open>The page: messages, timers and replies of the worker\<close>

text \<open>
  The state of the page as far as the transfers go: the list of active transfers, the
  timers that are pending (the calls \<^verbatim>\<open>handleData\<close> has scheduled with
  \<^verbatim>\<open>setTimeout\<close>), the requests posted to the worker and not yet answered, and
  whether the worker was initialised.
\<close>

record Page =
  activeTransfers :: "ActiveTransfer list"
  timers :: "effect list"
  posted :: "workerRequest list"
  workerInitialised :: bool

text \<open>
  What happens to the page: a message of the peer arrives (with the value of
  \<^verbatim>\<open>Date.now()\<close>), the pending timer number \<open>k\<close> fires, the worker answers the
  pending request number \<open>k\<close>. Any pending timer may fire next and any pending request
  may be answered next: the order the delays (100 ms, 3000 ms) and the queue of the
  worker impose is not modelled, so a statement about all lists of events covers every
  schedule of the program. An event that names no pending timer or request changes
  nothing. Each updater passed to \<^verbatim>\<open>setActiveTransfers\<close> is applied once, in the
  order of the calls.

  The buttons of the page and \<^verbatim>\<open>sendFile\<close> are not events here.
  \<^verbatim>\<open>cancelTransfer\<close> does to the list what a \<^verbatim>\<open>cancel\<close> message for the id
  does; \<^verbatim>\<open>pauseTransfer\<close> and \<^verbatim>\<open>resumeTransfer\<close> act for a transfer of direction
  \<^verbatim>\<open>sending\<close> only; \<^verbatim>\<open>sendFile\<close> adds the records of direction
  \<^verbatim>\<open>sending\<close>.
\<close>

datatype event = Data nat message | Timeout nat | WorkerReply nat

text \<open>The effects that are timers; a toast is shown at once.\<close>

fun isTimer :: "effect \<Rightarrow> bool" where
  "isTimer (Toast title descr) = False"
| "isTimer _ = True"

definition removeAt :: "nat \<Rightarrow> 'a list \<Rightarrow> 'a list" where
  "removeAt k xs = take k xs @ drop (Suc k) xs"

text \<open>
  What a timer does when it fires: the call of \<^verbatim>\<open>handleCompleteFileReceived\<close> on
  the copy of the record, which may post a request to the worker, or
  \<^verbatim>\<open>setActiveTransfers((prev) => prev.filter((t) => t.id !== fileId))\<close>. The copy
  has the mapping as it was when the call was scheduled (see \<open>effect\<close> above); as
  long as no \<^verbatim>\<open>resume\<close> message reaches a record whose mapping is complete, no
  chunk is stored for a record after its call was scheduled, and the copy and the
  \<^verbatim>\<open>Map\<close> of the source hold the same.
\<close>

definition fire :: "effect \<Rightarrow> Page \<Rightarrow> Page" where
  "fire e p =
     (case e of
        CompleteLater s \<Rightarrow>
          (case handleCompleteFileReceived (workerInitialised p) s (activeTransfers p) of
             (ts', req) \<Rightarrow>
               p\<lparr>activeTransfers := ts',
                 posted := posted p @ (case req of None \<Rightarrow> [] | Some r \<Rightarrow> [r])\<rparr>)
      | RemoveLater fid \<Rightarrow> p\<lparr>activeTransfers := removeTransfer fid (activeTransfers p)\<rparr>
      | Toast title descr \<Rightarrow> p)"

text \<open>The message of an error thrown in the worker; the wording is the engine's (here
  V8's).\<close>

fun errorMessage :: "jsError \<Rightarrow> string" where
  "errorMessage RangeError = ''offset is out of bounds''"

text \<open>
  \<^verbatim>\<open>workerRef.current.onmessage\<close> of file-worker-manager.tsx, with
  \<^verbatim>\<open>handleFileAssembled\<close> of page.tsx as \<^verbatim>\<open>onFileAssembled\<close>: for an assembled file
  a toast and the removal of the records of the file id from the active transfers (the
  entry added to the transfer history is not part of this state); for an error a
  toast with the message of the error.
\<close>

definition onWorkerMessage :: "workerReply \<Rightarrow> Page \<Rightarrow> Page \<times> effect list" where
  "onWorkerMessage reply p =
     (case reply of
        FILE_ASSEMBLED fid blob md \<Rightarrow>
          (p\<lparr>activeTransfers := removeTransfer fid (activeTransfers p)\<rparr>,
           [Toast ''File Received'' (''File ready: '' @ name_m md)])
      | ERROR fid e \<Rightarrow> (p, [Toast ''File Transfer Error'' (errorMessage e)]))"

text \<open>One event: the new state of the page, and what was shown and scheduled.\<close>

fun step :: "event \<Rightarrow> Page \<Rightarrow> Page \<times> effect list" where
  "step (Data now msg) p =
     (case handleData now (activeTransfers p) msg of
        (ts', fx) \<Rightarrow> (p\<lparr>activeTransfers := ts', timers := timers p @ filter isTimer fx\<rparr>, fx))"
| "step (Timeout k) p =
     (if k < length (timers p)
      then (fire (timers p ! k) (p\<lparr>timers := removeAt k (timers p)\<rparr>), [])
      else (p, []))"
| "step (WorkerReply k) p =
     (if k < length (posted p)
      then onWorkerMessage (assembleFile (posted p ! k)) (p\<lparr>posted := removeAt k (posted p)\<rparr>)
      else (p, []))"

text \<open>A list of events, one after the other; the effects are collected in order.\<close>

fun play :: "Page \<Rightarrow> event list \<Rightarrow> Page \<times> effect list" where
  "play p [] = (p, [])"
| "play p (ev # evs) =
     (case step ev p of
        (p', fx) \<Rightarrow> (case play p' evs of (p'', fx') \<Rightarrow> (p'', fx @ fx')))"

section \<open>Notions used in the statements\<close>

text \<open>The chunk object the sender passes to \<^verbatim>\<open>sendData\<close>, as the message the peer
  receives.\<close>

definition chunkMessage :: "FileChunk \<Rightarrow> message" where
  "chunkMessage c = ChunkMsg (fileId c) (index c) (data c)"

text \<open>Kinds of messages: a chunk message; a \<^verbatim>\<open>resume\<close> control message for a file id;
  a metadata message for a file id; a \<^verbatim>\<open>pause\<close> or \<^verbatim>\<open>cancel\<close> control message
  for a file id.\<close>

fun isChunk :: "message \<Rightarrow> bool" where
  "isChunk (ChunkMsg f idx dat) = True"
| "isChunk _ = False"

fun isResume :: "string \<Rightarrow> message \<Rightarrow> bool" where
  "isResume fid (ControlMsg f action) = (f = fid \<and> action = ''resume'')"
| "isResume fid _ = False"

fun isMetadataFor :: "string \<Rightarrow> message \<Rightarrow> bool" where
  "isMetadataFor fid (MetadataMsg m) = (id_m m = fid)"
| "isMetadataFor fid _ = False"

fun isPauseOrCancel :: "string \<Rightarrow> message \<Rightarrow> bool" where
  "isPauseOrCancel fid (ControlMsg f action) =
     (f = fid \<and> (action = ''pause'' \<or> action = ''cancel''))"
| "isPauseOrCancel fid _ = False"

text \<open>The number of bytes a mapping holds.\<close>

definition storedBytes :: "(int, Uint8Array) jsmap \<Rightarrow> nat" where
  "storedBytes mp = sum_list (map (\<lambda>(k, v). length v) mp)"

text \<open>
  What one message does to one record of the list, and what it schedules for it:
  \<^verbatim>\<open>handleData\<close> maps these over the list (a metadata message changes no record).
\<close>

definition step1 :: "message \<Rightarrow> ActiveTransfer \<Rightarrow> ActiveTransfer" where
  "step1 msg t =
     (case msg of
        ChunkMsg f idx dat \<Rightarrow> fst (receiveChunk f idx dat t)
      | ControlMsg f action \<Rightarrow>
          (if action = ''pause'' then setStatus f Paused t
           else if action = ''resume'' then setStatus f Transferring t
           else if action = ''cancel'' then setStatus f Cancelled t
           else t)
      | _ \<Rightarrow> t)"

definition effects1 :: "message \<Rightarrow> ActiveTransfer \<Rightarrow> effect list" where
  "effects1 msg t =
     (case msg of ChunkMsg f idx dat \<Rightarrow> snd (receiveChunk f idx dat t) | _ \<Rightarrow> [])"

text \<open>
  States of the record of a transfer with metadata \<open>m\<close>. \<open>pending\<close>: no completion
  has been scheduled for it. \<open>fired\<close>: the mapping is complete and the record does not
  accept chunks. \<open>gathering\<close>: it accepts chunks, and \<open>seen\<close> are the indices it
  holds. \<open>stuck\<close>: a record of a transfer of zero chunks that is not completed.
\<close>

definition pending :: "string \<Rightarrow> FileMetadata \<Rightarrow> ActiveTransfer \<Rightarrow> bool" where
  "pending fid m t \<longleftrightarrow>
     id_t t = fid \<and> metadata t = m \<and> status t \<noteq> Completed \<and>
     (\<exists>mp. chunks t = Some mp \<and> \<not> (map_size mp = totalChunks m \<and> 0 < totalChunks m))"

definition fired :: "string \<Rightarrow> FileMetadata \<Rightarrow> ActiveTransfer \<Rightarrow> bool" where
  "fired fid m t \<longleftrightarrow>
     id_t t = fid \<and> metadata t = m \<and> status t \<noteq> Transferring \<and>
     (\<exists>mp. chunks t = Some mp \<and> map_size mp = totalChunks m \<and> 0 < totalChunks m)"

definition gathering :: "string \<Rightarrow> FileMetadata \<Rightarrow> int set \<Rightarrow> ActiveTransfer \<Rightarrow> bool" where
  "gathering fid m seen t \<longleftrightarrow>
     id_t t = fid \<and> metadata t = m \<and> status t = Transferring \<and>
     (\<exists>mp. chunks t = Some mp \<and> distinct (map fst mp) \<and> fst ` set mp = seen) \<and>
     (totalChunks m = 0 \<or> card seen < totalChunks m)"

definition stuck :: "ActiveTransfer \<Rightarrow> bool" where
  "stuck t \<longleftrightarrow> totalChunks (metadata t) = 0 \<and> status t \<noteq> Completed"

text \<open>The records of a file id in the list of active transfers of a page.\<close>

definition recordsOf :: "string \<Rightarrow> Page \<Rightarrow> ActiveTransfer list" where
  "recordsOf fid p = filter (\<lambda>t. id_t t = fid) (activeTransfers p)"

text \<open>An event that is a message of some kind.\<close>

fun carries :: "(message \<Rightarrow> bool) \<Rightarrow> event \<Rightarrow> bool" where
  "carries P (Data now msg) = P msg"
| "carries P _ = False"

text \<open>The indices of the chunk messages for a file id among the events, in the order
  of arrival.\<close>

fun eventChunkIndices :: "string \<Rightarrow> event list \<Rightarrow> int list" where
  "eventChunkIndices fid [] = []"
| "eventChunkIndices fid (Data now (ChunkMsg f idx dat) # evs) =
     (if f = fid then idx # eventChunkIndices fid evs else eventChunkIndices fid evs)"
| "eventChunkIndices fid (_ # evs) = eventChunkIndices fid evs"

text \<open>The test of \<^verbatim>\<open>handleCompleteFileReceived\<close>:
  \<^verbatim>\<open>transfer.chunks && transfer.chunks.size === transfer.metadata.totalChunks\<close>.\<close>

definition hasAllChunks :: "ActiveTransfer \<Rightarrow> bool" where
  "hasAllChunks t =
     (case chunks t of None \<Rightarrow> False | Some mp \<Rightarrow> map_size mp = totalChunks (metadata t))"

text \<open>Some \<^verbatim>\<open>resume\<close> message for the file id is handled while a record of this id in
  the list has a complete mapping.\<close>

fun reopens :: "string \<Rightarrow> Page \<Rightarrow> event list \<Rightarrow> bool" where
  "reopens fid p [] = False"
| "reopens fid p (ev # evs) =
     ((carries (isResume fid) ev \<and> (\<exists>t\<in>set (recordsOf fid p). hasAllChunks t))
      \<or> reopens fid (fst (step ev p)) evs)"

text \<open>The file id of a request to the worker; a timer that is a completion call for a
  file id; a timer that is a completion call or a removal for a file id.\<close>

fun requestId :: "workerRequest \<Rightarrow> string" where
  "requestId (ASSEMBLE_FILE fid cs md) = fid"

fun completes :: "string \<Rightarrow> effect \<Rightarrow> bool" where
  "completes fid (CompleteLater s) = (id_t s = fid)"
| "completes fid _ = False"

fun mentions :: "string \<Rightarrow> effect \<Rightarrow> bool" where
  "mentions fid (CompleteLater s) = (id_t s = fid)"
| "mentions fid (RemoveLater f) = (f = fid)"
| "mentions fid (Toast title descr) = False"

text \<open>No completion call for the file id is pending; no timer and no request to the
  worker for the file id is pending.\<close>

definition unscheduled :: "string \<Rightarrow> Page \<Rightarrow> bool" where
  "unscheduled fid p \<longleftrightarrow> (\<forall>e\<in>set (timers p). \<not> completes fid e)"

definition quiet :: "string \<Rightarrow> Page \<Rightarrow> bool" where
  "quiet fid p \<longleftrightarrow>
     (\<forall>e\<in>set (timers p). \<not> mentions fid e) \<and> (\<forall>r\<in>set (posted p). requestId r \<noteq> fid)"

text \<open>What \<^verbatim>\<open>handleCompleteFileReceived\<close> does to a record of the id:
  \<^verbatim>\<open>{ ...t, status: "completed", progress: 100 }\<close>.\<close>

definition mark :: "ActiveTransfer \<Rightarrow> ActiveTransfer" where
  "mark t = t\<lparr>status := Completed, progress := Num 100\<rparr>"

text \<open>
  States of the page with respect to a transfer with metadata \<open>m\<close> and the file id
  \<open>fid\<close>. \<open>awaiting\<close>: one record of the id, not complete, and no completion call
  pending. \<open>absent\<close>: no record of the id and no completion call pending.
  \<open>settled\<close>: the completion call was scheduled with the copy \<open>s\<close>; the record, if
  it is still in the list, has the mapping of \<open>s\<close> and does not accept chunks.
  \<open>collecting\<close>: one record of the id that accepts chunks and holds the indices
  \<open>seen\<close>, and nothing pending for the id.
\<close>

definition awaiting :: "string \<Rightarrow> FileMetadata \<Rightarrow> Page \<Rightarrow> bool" where
  "awaiting fid m p \<longleftrightarrow> (\<exists>t. recordsOf fid p = [t] \<and> pending fid m t) \<and> unscheduled fid p"

definition absent :: "string \<Rightarrow> Page \<Rightarrow> bool" where
  "absent fid p \<longleftrightarrow> recordsOf fid p = [] \<and> unscheduled fid p"

definition settled :: "string \<Rightarrow> FileMetadata \<Rightarrow> ActiveTransfer \<Rightarrow> Page \<Rightarrow> bool" where
  "settled fid m s p \<longleftrightarrow>
     id_t s = fid \<and> metadata s = m \<and> hasAllChunks s \<and> length (recordsOf fid p) \<le> 1 \<and>
     (\<forall>t\<in>set (recordsOf fid p). fired fid m t \<and> chunks t = chunks s) \<and>
     (\<forall>e\<in>set (timers p). completes fid e \<longrightarrow> e = CompleteLater s)"

definition collecting :: "string \<Rightarrow> FileMetadata \<Rightarrow> int set \<Rightarrow> Page \<Rightarrow> bool" where
  "collecting fid m seen p \<longleftrightarrow>
     (\<exists>t. recordsOf fid p = [t] \<and> gathering fid m seen t) \<and> quiet fid p"

section \<open>Example data\<close>

abbreviation note1 :: FileMetadata where
  "note1 \<equiv> \<lparr>id_m = ''file-a'', name_m = ''notes.txt'', type_m = ''text/plain'', size_m = 2, totalChunks = 1\<rparr>"

text \<open>The metadata and the four chunks of a file of 50000 bytes.\<close>

abbreviation note4 :: FileMetadata where
  "note4 \<equiv> \<lparr>id_m = ''file-a'', name_m = ''notes.txt'', type_m = ''text/plain'', size_m = 50000, totalChunks = 4\<rparr>"

abbreviation part0 :: Uint8Array where
  "part0 \<equiv> replicate 16384 1"

abbreviation part1 :: Uint8Array where
  "part1 \<equiv> replicate 16384 2"

abbreviation part2 :: Uint8Array where
  "part2 \<equiv> replicate 16384 3"

abbreviation part3 :: Uint8Array where
  "part3 \<equiv> replicate 848 4"

abbreviation other1 :: FileMetadata where
  "other1 \<equiv> \<lparr>id_m = ''file-b'', name_m = ''b.txt'', type_m = ''text/plain'', size_m = 1, totalChunks = 1\<rparr>"

abbreviation big2 :: FileMetadata where
  "big2 \<equiv> \<lparr>id_m = ''file-c'', name_m = ''c.bin'', type_m = ''application/octet-stream'',
            size_m = 16386, totalChunks = 2\<rparr>"

abbreviation ch :: "int \<Rightarrow> Uint8Array \<Rightarrow> FileChunk" where
  "ch i d \<equiv> \<lparr>fileId = ''file-a'', index = i, data = d\<rparr>"

text \<open>The page before any transfer.\<close>

abbreviation emptyPage :: Page where
  "emptyPage \<equiv> \<lparr>activeTransfers = [], timers = [], posted = [], workerInitialised = True\<rparr>"

section \<open>The chunker and the assembler: auxiliary facts\<close>

lemma totalChunksOf_div: "totalChunksOf n = (n + 16383) div 16384"
  unfolding totalChunksOf_def chunkSize_def by linarith

lemma totalChunksOf_bounds:
  "size_f file \<le> totalChunksOf (size_f file) * chunkSize"
  "k < totalChunksOf n \<Longrightarrow> k * chunkSize < n"
  unfolding totalChunksOf_div chunkSize_def by linarith+

lemma slice_chunk:
  "slice bs (i * chunkSize) (min (i * chunkSize + chunkSize) (length bs)) = take chunkSize (drop (i * chunkSize) bs)"
  unfolding slice_def Let_def by (cases "i * chunkSize \<le> length bs") (auto simp: min_def)

lemma map_set_new: "k \<notin> fst ` set m \<Longrightarrow> map_set k v m = m @ [(k, v)]"
  by (induction m) auto

lemma copyChunks_concat:
  "off + length (concat cs) \<le> length buf \<Longrightarrow>
   copyChunks buf off cs = Inr (take off buf @ concat cs @ drop (off + length (concat cs)) buf)"
proof (induction cs arbitrary: buf off)
  case Nil
  then show ?case by simp
next
  case (Cons c cs)
  let ?buf' = "take off buf @ c @ drop (off + length c) buf"
  have len: "length ?buf' = length buf" using Cons.prems by simp
  have fit: "(off + length c) + length (concat cs) \<le> length ?buf'" using Cons.prems len by simp
  have "copyChunks buf off (c # cs) = copyChunks ?buf' (off + length c) cs"
    using Cons.prems by (simp add: typed_set_def)
  also have "\<dots> = Inr (take (off + length c) ?buf' @ concat cs @ drop (off + length c + length (concat cs)) ?buf')"
    by (rule Cons.IH[OF fit])
  also have "take (off + length c) ?buf' = take off buf @ c"
    using Cons.prems by simp
  also have "drop (off + length c + length (concat cs)) ?buf' = drop (off + length (concat (c # cs))) buf"
    using Cons.prems by (simp add: ac_simps)
  finally show ?case by simp
qed

lemma concat_chunks:
  "0 < c \<Longrightarrow> k \<le> n \<Longrightarrow> concat (map (\<lambda>i. take c (drop (i * c) bs)) [k..<n]) = take ((n - k) * c) (drop (k * c) bs)"
proof (induction n)
  case 0
  then show ?case by simp
next
  case (Suc n)
  show ?case
  proof (cases "k = Suc n")
    case True
    then show ?thesis by simp
  next
    case False
    then have kn: "k \<le> n" using Suc.prems by simp
    have "concat (map (\<lambda>i. take c (drop (i * c) bs)) [k..<Suc n])
        = take ((n - k) * c) (drop (k * c) bs) @ take c (drop (n * c) bs)"
      using Suc.IH[OF Suc.prems(1) kn] kn by simp
    also have "drop (n * c) bs = drop ((n - k) * c) (drop (k * c) bs)"
      using kn by (simp add: add.commute flip: add_mult_distrib)
    also have "take ((n - k) * c) (drop (k * c) bs) @ take c (drop ((n - k) * c) (drop (k * c) bs))
        = take ((n - k) * c + c) (drop (k * c) bs)"
      by (simp add: take_add)
    also have "(n - k) * c + c = (Suc n - k) * c"
      using kn by (simp add: Suc_diff_le)
    finally show ?thesis .
  qed
qed

lemma emitted_processNextChunk:
  "(\<forall>i<n. reads i = Loaded) \<Longrightarrow>
   emitted (processNextChunk fl reads fid n k) =
     map (\<lambda>i. \<lparr>fileId = fid, index = int i, data = take chunkSize (drop (i * chunkSize) (bytes_f fl))\<rparr>) [k..<n]"
proof (induction fl reads fid n k rule: processNextChunk.induct)
  case (1 fl reads fid n k)
  show ?case
  proof (cases "k \<ge> n")
    case True
    then show ?thesis by (subst processNextChunk.simps) simp
  next
    case False
    then have ld: "reads k = Loaded" using "1.prems" by simp
    have IH: "emitted (processNextChunk fl reads fid n (k + 1)) =
       map (\<lambda>i. \<lparr>fileId = fid, index = int i, data = take chunkSize (drop (i * chunkSize) (bytes_f fl))\<rparr>) [k + 1..<n]"
      using "1.IH"[OF False refl refl refl ld "1.prems"] .
    have "[k..<n] = k # [k + 1..<n]" using False by (simp add: upt_conv_Cons)
    then show ?thesis
      using False ld IH
      by (subst processNextChunk.simps) (simp add: Let_def slice_chunk size_f_def)
  qed
qed

lemma map_set_update: "map_set k v m = AList.update k v m"
  by (induction m) auto

lemma map_of_map_set: "map_of (map_set k v m) = (map_of m)(k \<mapsto> v)"
  by (simp add: map_set_update update_conv')

lemma distinct_map_set: "distinct (map fst m) \<Longrightarrow> distinct (map fst (map_set k v m))"
  by (simp add: map_set_update distinct_update)

lemma keys_map_set: "fst ` set (map_set k v m) = insert k (fst ` set m)"
proof -
  have "fst ` set (map_set k v m) = dom (map_of (map_set k v m))"
    by (simp add: dom_map_of_conv_image_fst)
  also have "\<dots> = insert k (dom (map_of m))"
    by (simp add: map_of_map_set)
  finally show ?thesis
    by (simp add: dom_map_of_conv_image_fst)
qed

lemma accumulate_Cons: "accumulate m (c # cs) = accumulate (map_set (index c) (data c) m) cs"
  by (simp add: accumulate_def)

lemma accumulate_Nil: "accumulate m [] = m"
  by (simp add: accumulate_def)

lemma accumulate_snoc: "accumulate m (cs @ [c]) = map_set (index c) (data c) (accumulate m cs)"
  by (simp add: accumulate_def)

lemma distinct_accumulate: "distinct (map fst m) \<Longrightarrow> distinct (map fst (accumulate m cs))"
  by (induction cs arbitrary: m) (simp_all add: accumulate_Nil accumulate_Cons distinct_map_set)

lemma keys_accumulate: "fst ` set (accumulate m cs) = fst ` set m \<union> index ` set cs"
proof (induction cs arbitrary: m)
  case Nil
  then show ?case by (simp add: accumulate_Nil)
next
  case (Cons c cs)
  show ?case
    unfolding accumulate_Cons Cons.IH keys_map_set by auto
qed

lemma map_of_accumulate_other:
  "k \<notin> index ` set cs \<Longrightarrow> map_of (accumulate m cs) k = map_of m k"
  by (induction cs arbitrary: m) (simp_all add: accumulate_Nil accumulate_Cons map_of_map_set)

lemma map_of_accumulate_mem:
  "c \<in> set cs \<Longrightarrow> inj_on index (set cs) \<Longrightarrow> map_of (accumulate m cs) (index c) = Some (data c)"
proof (induction cs arbitrary: m)
  case Nil
  then show ?case by simp
next
  case (Cons c0 cs)
  have inj: "inj_on index (set cs)" using Cons.prems(2) by (simp add: inj_on_def)
  show ?case
  proof (cases "c \<in> set cs")
    case True
    then show ?thesis using Cons.IH[OF True inj] by (simp add: accumulate_Cons)
  next
    case False
    then have c: "c = c0" using Cons.prems(1) by simp
    have "index c \<notin> index ` set cs"
    proof
      assume "index c \<in> index ` set cs"
      then obtain d where d: "d \<in> set cs" "index d = index c" by auto
      then have "d = c" using Cons.prems(2) c by (auto simp: inj_on_def)
      then show False using d False by simp
    qed
    then show ?thesis
      by (simp add: accumulate_Cons map_of_accumulate_other map_of_map_set c)
  qed
qed




lemma set_accumulate:
  assumes "inj_on index (set cs)"
  shows "set (accumulate [] cs) = (\<lambda>c. (index c, data c)) ` set cs"
proof -
  have d: "distinct (map fst (accumulate [] cs))" by (simp add: distinct_accumulate)
  have mem: "(k, v) \<in> set (accumulate [] cs) \<longleftrightarrow> map_of (accumulate [] cs) k = Some v" for k v
    using d by (rule map_of_eq_Some_iff[symmetric])
  show ?thesis
  proof (intro equalityI subsetI)
    fix p assume p: "p \<in> set (accumulate [] cs)"
    obtain k v where kv: "p = (k, v)" by (cases p)
    have m: "map_of (accumulate [] cs) k = Some v" using p kv mem by simp
    have "k \<in> index ` set cs"
    proof (rule ccontr)
      assume "k \<notin> index ` set cs"
      then have "map_of (accumulate [] cs) k = map_of [] k" by (rule map_of_accumulate_other)
      then show False using m by simp
    qed
    then obtain c where c: "c \<in> set cs" "k = index c" by blast
    have "map_of (accumulate [] cs) (index c) = Some (data c)"
      using c(1) assms by (rule map_of_accumulate_mem)
    then have "v = data c" using m c(2) by simp
    then show "p \<in> (\<lambda>c. (index c, data c)) ` set cs" using c kv by blast
  next
    fix p assume "p \<in> (\<lambda>c. (index c, data c)) ` set cs"
    then obtain c where c: "c \<in> set cs" "p = (index c, data c)" by blast
    have "map_of (accumulate [] cs) (index c) = Some (data c)"
      using c(1) assms by (rule map_of_accumulate_mem)
    then show "p \<in> set (accumulate [] cs)" using mem c(2) by simp
  qed
qed



lemma sort_key_fst_cong:
  fixes xs ys :: "(int \<times> 'v) list"
  assumes "distinct (map fst xs)" "distinct (map fst ys)" "set xs = set ys"
  shows "sort_key fst xs = sort_key fst ys"
proof -
  have "distinct xs" "distinct ys" using assms(1,2) by (simp_all add: distinct_map)
  then have "mset xs = mset ys" using assms(3) by (simp add: set_eq_iff_mset_eq_distinct)
  moreover have "inj_on fst (set xs)" using assms(1) by (simp add: distinct_map)
  ultimately show ?thesis by (rule sort_key_eq_sort_key)
qed


lemma sortedChunks_permutation:
  assumes "set cs' = set cs" "inj_on index (set cs)"
  shows "sortedChunks (accumulate [] cs') = sortedChunks (accumulate [] cs)"
proof -
  have "inj_on index (set cs')" using assms by simp
  then have "set (accumulate [] cs') = set (accumulate [] cs)"
    using assms by (simp add: set_accumulate)
  then have "sort_key fst (accumulate [] cs') = sort_key fst (accumulate [] cs)"
    by (intro sort_key_fst_cong) (simp_all add: distinct_accumulate)
  then show ?thesis by (simp add: sortedChunks_def)
qed

lemma accumulate_fresh:
  "distinct (map index cs) \<Longrightarrow> index ` set cs \<inter> fst ` set m = {} \<Longrightarrow>
   accumulate m cs = m @ map (\<lambda>c. (index c, data c)) cs"
proof (induction cs arbitrary: m)
  case Nil
  then show ?case by (simp add: accumulate_Nil)
next
  case (Cons c cs)
  have new: "index c \<notin> fst ` set m" using Cons.prems(2) by auto
  have "index ` set cs \<inter> fst ` set (m @ [(index c, data c)]) = {}"
    using Cons.prems by auto
  then show ?case
    using Cons.IH[of "m @ [(index c, data c)]"] Cons.prems(1) new
    by (simp add: accumulate_Cons map_set_new)
qed

section \<open>Shape of the chunks and round trip\<close>

lemma chunkSize_val: "chunkSize = 16384"
  by (simp add: chunkSize_def)

lemma emitted_chunkFile:
  assumes "\<forall>i<totalChunksOf (size_f fl). reads i = Loaded"
  shows "emitted (snd (snd (chunkFile fl reads fid))) =
     map (\<lambda>i. \<lparr>fileId = fid, index = int i, data = take chunkSize (drop (i * chunkSize) (bytes_f fl))\<rparr>)
       [0..<totalChunksOf (size_f fl)]"
  using emitted_processNextChunk[OF assms] by (simp add: chunkFile_def Let_def)

lemma chunk_length:
  assumes "i < totalChunksOf (length bs)"
  shows "length (take chunkSize (drop (i * chunkSize) bs)) =
     (if i + 1 < totalChunksOf (length bs) then chunkSize
      else length bs - (totalChunksOf (length bs) - 1) * chunkSize)"
proof (cases "i + 1 < totalChunksOf (length bs)")
  case True
  have "(i + 1) * chunkSize < length bs"
    using True by (rule totalChunksOf_bounds(2))
  then have "chunkSize \<le> length bs - i * chunkSize" by simp
  then show ?thesis using True by simp
next
  case False
  then have i: "i = totalChunksOf (length bs) - 1" using assms by linarith
  have "length bs \<le> totalChunksOf (length bs) * chunkSize"
    unfolding totalChunksOf_div chunkSize_val by linarith
  also have "totalChunksOf (length bs) = Suc i" using assms i by simp
  finally have "length bs - i * chunkSize \<le> chunkSize" by simp
  then show ?thesis using False i by (simp add: min_def)
qed

text \<open>
  Claim C8. When every read succeeds, the chunker of a file of \<open>size_f fl\<close> bytes, with
  \<open>chunkSize = 16384\<close>, hands \<open>totalChunks = ceil (size / chunkSize)\<close> chunks to
  \<^verbatim>\<open>onChunkReady\<close>; their indices are \<open>0, 1, \<dots>, totalChunks - 1\<close> in this order,
  and each chunk has \<open>chunkSize\<close> bytes except the last, which has
  \<open>size - (totalChunks - 1) * chunkSize\<close>. A file of 50000 bytes gives 4 chunks of
  16384, 16384, 16384 and 848 bytes (the instance below).
\<close>

theorem chunkFile_shape:
  assumes "\<forall>i<totalChunksOf (size_f fl). reads i = Loaded"
  shows "case chunkFile fl reads fid of (fid', md, cbs) \<Rightarrow>
           chunkSize = 16384
         \<and> totalChunks md = nat \<lceil>(of_nat (size_f fl) :: rat) / of_nat chunkSize\<rceil>
         \<and> totalChunks md = (size_f fl + chunkSize - 1) div chunkSize
         \<and> length (emitted cbs) = totalChunks md
         \<and> map index (emitted cbs) = map int [0..<totalChunks md]
         \<and> map (\<lambda>c. length (data c)) (emitted cbs) =
             map (\<lambda>i. if i + 1 < totalChunks md then chunkSize
                       else size_f fl - (totalChunks md - 1) * chunkSize) [0..<totalChunks md]"
proof -
  let ?n = "totalChunksOf (size_f fl)"
  have em: "emitted (snd (snd (chunkFile fl reads fid))) =
     map (\<lambda>i. \<lparr>fileId = fid, index = int i, data = take chunkSize (drop (i * chunkSize) (bytes_f fl))\<rparr>) [0..<?n]"
    by (rule emitted_chunkFile[OF assms])
  have md: "totalChunks (fst (snd (chunkFile fl reads fid))) = ?n"
    by (simp add: chunkFile_def Let_def)
  have c1: "chunkSize = 16384" by (simp add: chunkSize_def)
  have c2: "?n = nat \<lceil>(of_nat (size_f fl) :: rat) / of_nat chunkSize\<rceil>"
    by (simp add: totalChunksOf_def)
  have c3: "?n = (size_f fl + chunkSize - 1) div chunkSize"
    by (simp add: totalChunksOf_div chunkSize_def)
  have c4: "length (emitted (snd (snd (chunkFile fl reads fid)))) = ?n"
    by (simp add: em)
  have c5: "map index (emitted (snd (snd (chunkFile fl reads fid)))) = map int [0..<?n]"
    by (simp add: em comp_def)
  have c6: "map (\<lambda>c. length (data c)) (emitted (snd (snd (chunkFile fl reads fid)))) =
             map (\<lambda>i. if i + 1 < ?n then chunkSize
                       else size_f fl - (?n - 1) * chunkSize) [0..<?n]"
    unfolding em map_map comp_def
    by (rule map_cong[OF refl]) (simp add: chunk_length[of _ "bytes_f fl"] size_f_def del: length_take length_drop)
  show ?thesis
    using c1 c2 c3 c4 c5 c6 unfolding md[symmetric]
    by (cases "chunkFile fl reads fid") simp
qed

theorem chunkFile_shape_witness:
  "case chunkFile \<lparr>name_f = ''a.bin'', type_f = ''application/octet-stream'',
                   bytes_f = replicate 50000 0\<rparr> (\<lambda>_. Loaded) ''file-1'' of
     (fid', md, cbs) \<Rightarrow>
        totalChunks md = 4
      \<and> map index (emitted cbs) = [0, 1, 2, 3]
      \<and> map (\<lambda>c. length (data c)) (emitted cbs) = [16384, 16384, 16384, 848]"
proof -
  let ?fl = "\<lparr>name_f = ''a.bin'', type_f = ''application/octet-stream'', bytes_f = replicate 50000 (0 :: 8 word)\<rparr>"
  have h: "\<forall>i<totalChunksOf (size_f ?fl). (\<lambda>_. Loaded) i = Loaded" by simp
  obtain md cbs where cf: "chunkFile ?fl (\<lambda>_. Loaded) ''file-1'' = (''file-1'', md, cbs)"
    by (simp add: chunkFile_def Let_def)
  have n: "totalChunks md = 4"
    using cf by (auto simp: chunkFile_def Let_def totalChunksOf_div size_f_def)
  have u: "[0..<4] = [0, 1, 2, 3::nat]" by (simp add: upt_rec)
  have "map index (emitted cbs) = [0, 1, 2, 3]
      \<and> map (\<lambda>c. length (data c)) (emitted cbs) = [16384, 16384, 16384, 848]"
    using chunkFile_shape[OF h, of "''file-1''"] unfolding cf prod.case n u
    by (simp add: chunkSize_val size_f_def)
  then show ?thesis
    unfolding cf prod.case using n by simp
qed

lemma assemble_emitted:
  assumes "\<forall>i<totalChunksOf (size_f fl). reads i = Loaded"
    and "chunkFile fl reads fid = (fid', md, cbs)"
  shows "assembleFile (ASSEMBLE_FILE fid' (sortedChunks (accumulate [] (emitted cbs))) md)
           = FILE_ASSEMBLED fid \<lparr>bytes_b = bytes_f fl, type_b = type_f fl\<rparr> md"
proof -
  let ?n = "totalChunksOf (size_f fl)"
  let ?bs = "bytes_f fl"
  let ?mk = "\<lambda>i. \<lparr>fileId = fid, index = int i, data = take chunkSize (drop (i * chunkSize) ?bs)\<rparr>"
  let ?cs = "map ?mk [0..<?n]"
  have fid': "fid' = fid" using assms(2) by (simp add: chunkFile_def Let_def)
  have em: "emitted cbs = ?cs"
    using emitted_chunkFile[OF assms(1), of fid] assms(2) by simp
  have md: "size_m md = length ?bs" "type_m md = type_f fl"
    using assms(2) by (auto simp: chunkFile_def Let_def size_f_def)
  have idx: "map index ?cs = map int [0..<?n]" by (simp add: comp_def)
  have "distinct (map index ?cs)"
    unfolding idx by (simp add: distinct_map inj_on_def)
  then have acc: "accumulate [] ?cs = map (\<lambda>c. (index c, data c)) ?cs"
    using accumulate_fresh[of ?cs "[]"] by simp
  have "map fst (accumulate [] ?cs) = map int [0..<?n]"
    unfolding acc by (simp add: comp_def)
  then have "sorted (map fst (accumulate [] ?cs))"
    by (simp add: sorted_map strict_sorted_iff flip: sorted_wrt_map)
  then have "sort_key fst (accumulate [] ?cs) = accumulate [] ?cs"
    by (rule sort_key_id_if_sorted)
  then have sc: "sortedChunks (accumulate [] ?cs) = map (\<lambda>i. take chunkSize (drop (i * chunkSize) ?bs)) [0..<?n]"
    unfolding sortedChunks_def acc by (simp add: comp_def)
  have "concat (sortedChunks (accumulate [] ?cs)) = take ((?n - 0) * chunkSize) (drop (0 * chunkSize) ?bs)"
    unfolding sc by (rule concat_chunks) (simp_all add: chunkSize_def)
  then have cc: "concat (sortedChunks (accumulate [] ?cs)) = ?bs"
    using totalChunksOf_bounds(1)[of fl] by (simp add: size_f_def)
  have "copyChunks (replicate (length ?bs) 0) 0 (sortedChunks (accumulate [] ?cs)) = Inr ?bs"
    using copyChunks_concat[of 0 "sortedChunks (accumulate [] ?cs)" "replicate (length ?bs) 0"]
    by (simp add: cc)
  then show ?thesis
    by (simp add: fid' em assembleFile_def md)
qed

text \<open>
  Claim C1. For every file content, of any length (0, 1, \<open>chunkSize - 1\<close>,
  \<open>chunkSize\<close>, \<open>chunkSize + 1\<close>, \<open>10 * chunkSize + 7\<close>, \<dots>): when every read
  succeeds, storing the chunks of \<^verbatim>\<open>chunkFile\<close> in the index-to-data mapping, sorting
  them by index in \<^verbatim>\<open>processReceivedFile\<close> and assembling them with
  \<^verbatim>\<open>assembleFile\<close> gives a blob with exactly the bytes (and the type) of the file.
\<close>

theorem chunk_then_assemble_roundtrip:
  assumes "\<forall>i<totalChunksOf (size_f fl). reads i = Loaded"
  shows "case chunkFile fl reads fid of (fid', md, cbs) \<Rightarrow>
           map_option assembleFile
             (processReceivedFile True fid' (accumulate [] (emitted cbs)) md)
           = Some (FILE_ASSEMBLED fid \<lparr>bytes_b = bytes_f fl, type_b = type_f fl\<rparr> md)"
proof -
  obtain fid' md cbs where cf: "chunkFile fl reads fid = (fid', md, cbs)"
    by (cases "chunkFile fl reads fid")
  show ?thesis
    unfolding cf prod.case processReceivedFile_def
    using assemble_emitted[OF assms cf] by simp
qed

theorem chunk_then_assemble_roundtrip_witness:
  "case chunkFile \<lparr>name_f = ''b.bin'', type_f = ''text/plain'',
                   bytes_f = replicate 163847 7\<rparr> (\<lambda>_. Loaded) ''file-2'' of
     (fid', md, cbs) \<Rightarrow>
        map_option assembleFile
          (processReceivedFile True fid' (accumulate [] (emitted cbs)) md)
        = Some (FILE_ASSEMBLED ''file-2''
                 \<lparr>bytes_b = replicate 163847 7, type_b = ''text/plain''\<rparr> md)"
proof -
  let ?fl = "\<lparr>name_f = ''b.bin'', type_f = ''text/plain'', bytes_f = replicate 163847 (7 :: 8 word)\<rparr>"
  have h: "\<forall>i<totalChunksOf (size_f ?fl). (\<lambda>_. Loaded) i = Loaded" by simp
  have "bytes_f ?fl = replicate 163847 7" "type_f ?fl = ''text/plain''" by simp_all
  then show ?thesis
    using chunk_then_assemble_roundtrip[OF h, of "''file-2''"] by presburger
qed

section \<open>The registry: auxiliary facts\<close>

lemma receiveChunk_skip:
  "id_t t \<noteq> fid \<or> status t \<noteq> Transferring \<Longrightarrow> receiveChunk fid idx dat t = (t, [])"
  by (auto simp: receiveChunk_def)

lemma handleData_ChunkMsg:
  "handleData now ts (ChunkMsg fid idx dat) =
     (map (\<lambda>t. fst (receiveChunk fid idx dat t)) ts,
      concat (map (\<lambda>t. snd (receiveChunk fid idx dat t)) ts))"
  by (simp add: handleData_def)

lemma handleData_chunk_skip:
  assumes "\<forall>t\<in>set ts. id_t t \<noteq> fid \<or> status t \<noteq> Transferring"
  shows "handleData now ts (ChunkMsg fid idx dat) = (ts, [])"
proof -
  have "\<forall>t\<in>set ts. receiveChunk fid idx dat t = (t, [])"
    using assms receiveChunk_skip by blast
  then have "map (\<lambda>t. fst (receiveChunk fid idx dat t)) ts = ts"
    and "concat (map (\<lambda>t. snd (receiveChunk fid idx dat t)) ts) = []"
    by (simp_all add: map_idI)
  then show ?thesis by (simp add: handleData_ChunkMsg)
qed

lemma map_setStatus_other:
  "\<forall>t\<in>set ts. id_t t \<noteq> fid \<Longrightarrow> map (setStatus fid st) ts = ts"
  by (simp add: setStatus_def map_idI)

lemma status_setStatus: "status (setStatus fid st t) = (if id_t t = fid then st else status t)"
  by (simp add: setStatus_def)

lemma id_receiveChunk: "id_t (fst (receiveChunk fid idx dat t)) = id_t t"
  by (simp add: receiveChunk_def Let_def)

lemma id_setStatus: "id_t (setStatus fid st t) = id_t t"
  by (simp add: setStatus_def)

lemma id_step1: "id_t (step1 msg t) = id_t t"
  by (cases msg) (simp_all add: step1_def id_receiveChunk id_setStatus)

lemma map_size_map_set_pos: "0 < map_size (map_set k v m)"
  by (induction m) (auto simp: map_size_def split: if_splits)

lemma map_size_card: "distinct (map fst mp) \<Longrightarrow> map_size mp = card (fst ` set mp)"
  using distinct_card[of "map fst mp"] by (simp add: map_size_def)

lemma map_size_accumulate:
  "distinct (map index cs) \<Longrightarrow> map_size (accumulate [] cs) = length cs"
  using accumulate_fresh[of cs "[]"] by (simp add: map_size_def)

lemma fst_run_Cons:
  "fst (run ts ((now, msg) # ms)) = fst (run (fst (handleData now ts msg)) ms)"
  by (simp add: case_prod_unfold)

lemma snd_run_Cons:
  "snd (run ts ((now, msg) # ms)) =
     snd (handleData now ts msg) @ snd (run (fst (handleData now ts msg)) ms)"
  by (simp add: case_prod_unfold)

lemma run_append:
  "fst (run ts (ms @ ms')) = fst (run (fst (run ts ms)) ms')"
  "snd (run ts (ms @ ms')) = snd (run ts ms) @ snd (run (fst (run ts ms)) ms')"
proof (induction ms arbitrary: ts)
  case Nil
  { case 1 show ?case by simp }
  { case 2 show ?case by simp }
next
  case (Cons a ms)
  obtain now msg where a: "a = (now, msg)" by (cases a)
  { case 1 show ?case unfolding a append_Cons fst_run_Cons Cons.IH(1) .. }
  { case 2 show ?case unfolding a append_Cons fst_run_Cons snd_run_Cons Cons.IH(2) by simp }
qed

lemma completions_append:
  "completions fid (fx @ fx') = completions fid fx @ completions fid fx'"
  by (induction fid fx rule: completions.induct) simp_all

lemma completions_ids: "x \<in> set (completions fid fx) \<Longrightarrow> id_t x = fid"
  by (induction fid fx rule: completions.induct) (auto split: if_splits)

lemma completions_receiveChunk_other:
  "id_t t \<noteq> fid \<Longrightarrow> completions fid (snd (receiveChunk f idx dat t)) = []"
  by (simp add: receiveChunk_def Let_def)

lemma completions_concat_filter:
  "completions fid (concat (map (\<lambda>t. snd (receiveChunk f idx dat t)) ts)) =
   completions fid (concat (map (\<lambda>t. snd (receiveChunk f idx dat t)) (filter (\<lambda>t. id_t t = fid) ts)))"
  by (induction ts) (simp_all add: completions_append completions_receiveChunk_other)

lemma handleCompleteFileReceived_posts:
  assumes "chunks s = Some mp" "map_size mp = totalChunks (metadata s)"
  shows "handleCompleteFileReceived True s regs =
     (map (\<lambda>t. if id_t t = id_t s then t\<lparr>status := Completed, progress := Num 100\<rparr> else t) regs,
      Some (ASSEMBLE_FILE (id_t s) (sortedChunks mp) (metadata s)))"
  using assms by (simp add: handleCompleteFileReceived_def processReceivedFile_def)

text \<open>The events of the page, seen from the records of one file id.\<close>

lemma fst_play_Cons: "fst (play p (ev # evs)) = fst (play (fst (step ev p)) evs)"
  by (simp add: case_prod_unfold)

lemma snd_play_Cons:
  "snd (play p (ev # evs)) = snd (step ev p) @ snd (play (fst (step ev p)) evs)"
  by (simp add: case_prod_unfold)


lemma step1_MetadataMsg: "step1 (MetadataMsg m') = (\<lambda>t. t)"
  by (rule ext) (simp add: step1_def)

lemma effects1_MetadataMsg: "effects1 (MetadataMsg m') = (\<lambda>t. [])"
  by (rule ext) (simp add: effects1_def)

lemma step1_OtherMsg: "step1 OtherMsg = (\<lambda>t. t)"
  by (rule ext) (simp add: step1_def)

lemma effects1_not_chunk: "\<not> isChunk msg \<Longrightarrow> effects1 msg = (\<lambda>t. [])"
  by (rule ext) (cases msg; simp add: effects1_def)

lemma concat_map_Nil: "concat (map (\<lambda>t. []) xs) = []"
  by (induction xs) simp_all

lemma filter_handleData:
  assumes "\<not> isMetadataFor fid msg"
  shows "filter (\<lambda>t. id_t t = fid) (fst (handleData now ts msg))
           = map (step1 msg) (filter (\<lambda>t. id_t t = fid) ts)"
proof (cases msg)
  case (MetadataMsg m)
  then show ?thesis using assms by (simp add: handleData_def newTransfer_def step1_MetadataMsg)
next
  case (ChunkMsg f idx dat)
  have "step1 (ChunkMsg f idx dat) = (\<lambda>t. fst (receiveChunk f idx dat t))"
    by (rule ext) (simp add: step1_def)
  then show ?thesis using ChunkMsg
    by (simp add: handleData_def filter_map comp_def id_receiveChunk)
next
  case (ControlMsg f action)
  have "step1 (ControlMsg f action) =
          (if action = ''pause'' then setStatus f Paused
           else if action = ''resume'' then setStatus f Transferring
           else if action = ''cancel'' then setStatus f Cancelled
           else (\<lambda>t. t))"
    by (rule ext) (simp add: step1_def)
  then show ?thesis using ControlMsg
    by (simp add: handleData_def filter_map comp_def id_setStatus)
next
  case OtherMsg
  then show ?thesis by (simp add: handleData_def step1_OtherMsg)
qed

lemma completions_handleData:
  "completions fid (snd (handleData now ts msg))
     = completions fid (concat (map (effects1 msg) (filter (\<lambda>t. id_t t = fid) ts)))"
proof (cases msg)
  case (ChunkMsg f idx dat)
  have "effects1 (ChunkMsg f idx dat) = (\<lambda>t. snd (receiveChunk f idx dat t))"
    by (rule ext) (simp add: effects1_def)
  then show ?thesis
    using ChunkMsg completions_concat_filter[of fid f idx dat ts] by (simp add: handleData_def)
qed (simp_all add: handleData_def effects1_not_chunk concat_map_Nil)

lemma recordsOf_Data:
  assumes "\<not> isMetadataFor fid msg"
  shows "recordsOf fid (fst (step (Data now msg) p)) = map (step1 msg) (recordsOf fid p)"
  using filter_handleData[OF assms, of now "activeTransfers p"]
  by (simp add: recordsOf_def case_prod_unfold)

lemma completions_Data:
  "completions fid (snd (step (Data now msg) p))
           = completions fid (concat (map (effects1 msg) (recordsOf fid p)))"
  using completions_handleData[of fid now "activeTransfers p" msg]
  by (simp add: recordsOf_def case_prod_unfold)

lemma other_Data:
  "timers (fst (step (Data now msg) p)) = timers p @ filter isTimer (snd (step (Data now msg) p))"
  "posted (fst (step (Data now msg) p)) = posted p"
  "workerInitialised (fst (step (Data now msg) p)) = workerInitialised p"
  by (simp_all add: case_prod_unfold)

lemma filter_removeTransfer:
  "filter (\<lambda>t. id_t t = fid) (removeTransfer f ts)
     = (if f = fid then [] else filter (\<lambda>t. id_t t = fid) ts)"
  by (induction ts) (auto simp: removeTransfer_def)

lemma filter_handleCompleteFileReceived:
  "filter (\<lambda>t. id_t t = fid) (fst (handleCompleteFileReceived w s ts))
     = (if id_t s = fid \<and> hasAllChunks s then map mark (filter (\<lambda>t. id_t t = fid) ts)
        else filter (\<lambda>t. id_t t = fid) ts)"
proof (cases "hasAllChunks s")
  case False
  then show ?thesis
    by (auto simp: handleCompleteFileReceived_def hasAllChunks_def split: option.splits)
next
  case True
  then obtain mp where mp: "chunks s = Some mp" "map_size mp = totalChunks (metadata s)"
    by (auto simp: hasAllChunks_def split: option.splits)
  have "filter (\<lambda>t. id_t t = fid)
          (map (\<lambda>t. if id_t t = id_t s then t\<lparr>status := Completed, progress := Num 100\<rparr> else t) ts)
        = (if id_t s = fid then map mark (filter (\<lambda>t. id_t t = fid) ts)
           else filter (\<lambda>t. id_t t = fid) ts)"
    by (induction ts) (auto simp: mark_def)
  then show ?thesis using True mp by (simp add: handleCompleteFileReceived_def)
qed

lemma requestId_handleCompleteFileReceived:
  "snd (handleCompleteFileReceived w s ts) = Some r \<Longrightarrow> requestId r = id_t s"
  by (auto simp: handleCompleteFileReceived_def processReceivedFile_def
           split: option.splits if_splits)

lemma recordsOf_onWorkerMessage:
  "recordsOf fid (fst (onWorkerMessage (assembleFile r) p))
     = recordsOf fid p \<or>
   (requestId r = fid \<and> recordsOf fid (fst (onWorkerMessage (assembleFile r) p)) = [])"
  by (cases r)
     (auto simp: onWorkerMessage_def assembleFile_def recordsOf_def filter_removeTransfer
           split: sum.splits)

lemma other_onWorkerMessage:
  "timers (fst (onWorkerMessage reply p)) = timers p"
  "posted (fst (onWorkerMessage reply p)) = posted p"
  "completions fid (snd (onWorkerMessage reply p)) = []"
  by (cases reply; simp add: onWorkerMessage_def)+

lemma recordsOf_fire:
  "recordsOf fid (fire e p) =
     (case e of
        CompleteLater s \<Rightarrow>
          if id_t s = fid \<and> hasAllChunks s then map mark (recordsOf fid p) else recordsOf fid p
      | RemoveLater f \<Rightarrow> if f = fid then [] else recordsOf fid p
      | Toast title descr \<Rightarrow> recordsOf fid p)"
  by (cases e)
     (simp_all add: fire_def recordsOf_def filter_removeTransfer
        filter_handleCompleteFileReceived case_prod_unfold)

lemma timers_fire: "timers (fire e p) = timers p"
  by (cases e) (simp_all add: fire_def case_prod_unfold)

lemma posted_fire:
  "r \<in> set (posted (fire e p)) \<Longrightarrow> r \<in> set (posted p) \<or> (completes (requestId r) e)"
  by (cases e)
     (auto simp: fire_def case_prod_unfold requestId_handleCompleteFileReceived
           split: option.splits)

lemma play_run:
  "activeTransfers (fst (play p (map (\<lambda>(now, msg). Data now msg) ms))) = fst (run (activeTransfers p) ms)
   \<and> snd (play p (map (\<lambda>(now, msg). Data now msg) ms)) = snd (run (activeTransfers p) ms)"
proof (induction ms arbitrary: p)
  case Nil
  then show ?case by simp
next
  case (Cons a ms)
  obtain now msg where a: "a = (now, msg)" by (cases a)
  let ?p = "fst (step (Data now msg) p)"
  have s: "activeTransfers ?p = fst (handleData now (activeTransfers p) msg)"
      "snd (step (Data now msg) p) = snd (handleData now (activeTransfers p) msg)"
    by (simp_all add: case_prod_unfold)
  show ?case
    using Cons.IH[of ?p] unfolding a
    by (simp only: list.map prod.case fst_play_Cons snd_play_Cons fst_run_Cons snd_run_Cons s)
qed

section \<open>From the sender to the assembled file\<close>

text \<open>
  The mapping of a record fed with chunks of distinct indices is the mapping
  \<open>accumulate\<close> builds; the chunk that brings the size to \<open>totalChunks\<close> completes
  the record and schedules the completion call with this mapping.
\<close>

lemma delivery_accumulates:
  assumes "distinct (map index cs)" "\<forall>c\<in>set cs. fileId c = id_m m" "length cs \<le> totalChunks m"
  shows "\<exists>t'. fst (run [newTransfer now m] (map (\<lambda>c. (now', chunkMessage c)) cs)) = [t']
       \<and> id_t t' = id_m m \<and> metadata t' = m \<and> chunks t' = Some (accumulate [] cs)
       \<and> status t' = (if cs \<noteq> [] \<and> length cs = totalChunks m then Completed else Transferring)
       \<and> (\<exists>ss. completions (id_m m) (snd (run [newTransfer now m] (map (\<lambda>c. (now', chunkMessage c)) cs))) = ss
            \<and> map chunks ss = (if cs \<noteq> [] \<and> length cs = totalChunks m then [Some (accumulate [] cs)] else [])
            \<and> map metadata ss = (if cs \<noteq> [] \<and> length cs = totalChunks m then [m] else []))"
  using assms
proof (induction cs rule: rev_induct)
  case Nil
  then show ?case by (simp add: newTransfer_def accumulate_Nil)
next
  case (snoc c cs)
  let ?run = "run [newTransfer now m] (map (\<lambda>c. (now', chunkMessage c)) cs)"
  have d: "distinct (map index cs)" and f: "\<forall>c\<in>set cs. fileId c = id_m m"
    and l: "length cs < totalChunks m"
    using snoc.prems by simp_all
  obtain t' where t': "fst ?run = [t']" "id_t t' = id_m m" "metadata t' = m"
      "chunks t' = Some (accumulate [] cs)" "status t' = Transferring"
      "completions (id_m m) (snd ?run) = []"
    using snoc.IH[OF d f] l by auto
  let ?mp = "accumulate [] (cs @ [c])"
  have mp: "?mp = map_set (index c) (data c) (accumulate [] cs)" by (rule accumulate_snoc)
  have sz: "map_size ?mp = Suc (length cs)"
    using map_size_accumulate[OF snoc.prems(1)] by simp
  have fc: "fileId c = id_m m" using snoc.prems(2) by simp
  let ?r = "receiveChunk (id_m m) (index c) (data c) t'"
  have h: "handleData now' [t'] (chunkMessage c) = ([fst ?r], snd ?r)"
    by (simp add: chunkMessage_def handleData_def fc)
  have r1: "id_t (fst ?r) = id_m m" "metadata (fst ?r) = m" "chunks (fst ?r) = Some ?mp"
      "status (fst ?r) = (if Suc (length cs) = totalChunks m then Completed else Transferring)"
    using t' sz by (simp_all add: receiveChunk_def Let_def flip: mp)
  have r2: "map chunks (completions (id_m m) (snd ?r)) = (if Suc (length cs) = totalChunks m then [Some ?mp] else [])"
      "map metadata (completions (id_m m) (snd ?r)) = (if Suc (length cs) = totalChunks m then [m] else [])"
    using t' sz by (simp_all add: receiveChunk_def Let_def flip: mp)
  have a: "fst (run [newTransfer now m] (map (\<lambda>c. (now', chunkMessage c)) (cs @ [c]))) = [fst ?r]"
    by (simp add: run_append(1) t'(1) h)
  have b: "completions (id_m m) (snd (run [newTransfer now m] (map (\<lambda>c. (now', chunkMessage c)) (cs @ [c]))))
        = completions (id_m m) (snd ?r)"
    by (simp add: run_append t'(1,6) h completions_append)
  show ?case
    unfolding a b using r1 r2 by simp
qed

text \<open>
  A file that is not empty, sent to a peer with an empty list of transfers: the metadata
  message and the chunk messages, in the order the chunker emits them, schedule one
  completion call, and the request it posts is assembled to the bytes of the file.
\<close>

lemma transfer_roundtrip:
  assumes "\<forall>i<totalChunksOf (size_f fl). reads i = Loaded" and "bytes_f fl \<noteq> []"
    and "chunkFile fl reads fid = (fid', md, cbs)"
  shows "\<exists>s. completions fid
               (snd (run [] ((now, MetadataMsg md) # map (\<lambda>c. (now', chunkMessage c)) (emitted cbs)))) = [s]
           \<and> (\<forall>regs. map_option assembleFile (snd (handleCompleteFileReceived True s regs))
                 = Some (FILE_ASSEMBLED fid \<lparr>bytes_b = bytes_f fl, type_b = type_f fl\<rparr> md))"
proof -
  let ?n = "totalChunksOf (size_f fl)"
  let ?cs = "emitted cbs"
  have idm: "id_m md = fid" "totalChunks md = ?n" "fid' = fid"
    using assms(3) by (auto simp: chunkFile_def Let_def)
  have em: "?cs = map (\<lambda>i. \<lparr>fileId = fid, index = int i,
                 data = take chunkSize (drop (i * chunkSize) (bytes_f fl))\<rparr>) [0..<?n]"
    using emitted_chunkFile[OF assms(1), of fid] assms(3) by simp
  have "map index ?cs = map int [0..<?n]" unfolding em by (simp add: comp_def)
  then have d: "distinct (map index ?cs)" by (simp add: distinct_map inj_on_def)
  have f: "\<forall>c\<in>set ?cs. fileId c = id_m md" unfolding em idm by simp
  have len: "length ?cs = totalChunks md" unfolding em idm by simp
  have "0 < ?n" using assms(2) unfolding totalChunksOf_div size_f_def
    by (cases "bytes_f fl") simp_all
  then have ne: "?cs \<noteq> []" using len idm by auto
  let ?ms = "map (\<lambda>c. (now', chunkMessage c)) ?cs"
  obtain ss where ss: "completions (id_m md) (snd (run [newTransfer now md] ?ms)) = ss"
      "map chunks ss = [Some (accumulate [] ?cs)]" "map metadata ss = [md]"
    using delivery_accumulates[OF d f, of now now'] len ne by auto
  have "length (map chunks ss) = 1" unfolding ss(2) by simp
  then have "length ss = 1" by simp
  then obtain s where s1: "ss = [s]" by (auto simp: length_Suc_conv)
  have s: "ss = [s]" "chunks s = Some (accumulate [] ?cs)" "metadata s = md"
    using s1 ss(2,3) by simp_all
  have "s \<in> set (completions fid (snd (run [newTransfer now md] ?ms)))"
    using ss(1) s(1) idm(1) by simp
  then have ids: "id_t s = fid" by (rule completions_ids)
  have c: "completions fid (snd (run [] ((now, MetadataMsg md) # ?ms))) = [s]"
    unfolding snd_run_Cons completions_append
    using ss(1) s(1) idm by (simp add: handleData_def)
  have sz: "map_size (accumulate [] ?cs) = totalChunks (metadata s)"
    using map_size_accumulate[OF d] len s(3) by simp
  have "map_option assembleFile (snd (handleCompleteFileReceived True s regs))
                 = Some (FILE_ASSEMBLED fid \<lparr>bytes_b = bytes_f fl, type_b = type_f fl\<rparr> md)" for regs
    using handleCompleteFileReceived_posts[OF s(2) sz, of regs]
      assemble_emitted[OF assms(1,3)] ids s(3) idm by simp
  then show ?thesis using c by blast
qed

section \<open>Order of arrival\<close>

text \<open>
  Claim C6. Two deliveries of the same chunks (the same file id, index and data; an
  index determines its data) in different orders of arrival leave mappings that
  \<^verbatim>\<open>processReceivedFile\<close> sorts to the same list, so the assembler returns the
  same result; for instance the orders 2, 0, 3, 1 and 0, 1, 2, 3 of the four chunks of
  a transfer (the instance below).
\<close>

theorem order_independence:
  assumes "mset cs' = mset cs" and "inj_on index (set cs)"
  shows "sortedChunks (accumulate [] cs') = sortedChunks (accumulate [] cs)
       \<and> map_option assembleFile (processReceivedFile w fid (accumulate [] cs') md)
         = map_option assembleFile (processReceivedFile w fid (accumulate [] cs) md)"
proof -
  have "set cs' = set cs" using assms(1) by (rule mset_eq_setD)
  then have "sortedChunks (accumulate [] cs') = sortedChunks (accumulate [] cs)"
    using assms(2) by (rule sortedChunks_permutation)
  then show ?thesis by (simp add: processReceivedFile_def)
qed

theorem order_independence_witness:
  "sortedChunks (accumulate [] [ch 2 part2, ch 0 part0, ch 3 part3, ch 1 part1])
     = sortedChunks (accumulate [] [ch 0 part0, ch 1 part1, ch 2 part2, ch 3 part3])
   \<and> map_option assembleFile (processReceivedFile True ''file-a''
         (accumulate [] [ch 2 part2, ch 0 part0, ch 3 part3, ch 1 part1])
         note4)
     = map_option assembleFile (processReceivedFile True ''file-a''
         (accumulate [] [ch 0 part0, ch 1 part1, ch 2 part2, ch 3 part3])
         note4)"
proof -
  have p: "mset [ch 2 part2, ch 0 part0, ch 3 part3, ch 1 part1]
         = mset [ch 0 part0, ch 1 part1, ch 2 part2, ch 3 part3]"
    by (simp add: add_mset_commute)
  have i: "inj_on index (set [ch 0 part0, ch 1 part1, ch 2 part2, ch 3 part3])"
    by simp
  show ?thesis
    by (rule order_independence[OF p i])
qed

text \<open>The file assembled in this instance.\<close>

lemma out_of_order_assembled:
  "map_option assembleFile (processReceivedFile True ''file-a''
         (accumulate [] [ch 2 part2, ch 0 part0, ch 3 part3, ch 1 part1])
         note4)
   = Some (FILE_ASSEMBLED ''file-a''
             \<lparr>bytes_b = part0 @ part1 @ part2 @ part3, type_b = ''text/plain''\<rparr> note4)"
proof -
  have a: "sortedChunks (accumulate [] [ch 2 part2, ch 0 part0, ch 3 part3, ch 1 part1])
         = [part0, part1, part2, part3]"
    by (simp add: accumulate_def sortedChunks_def)
  have "copyChunks (replicate 50000 0) 0 [part0, part1, part2, part3]
         = Inr (part0 @ part1 @ part2 @ part3)"
    using copyChunks_concat[of 0 "[part0, part1, part2, part3]" "replicate 50000 0"] by simp
  then show ?thesis
    by (simp add: a processReceivedFile_def assembleFile_def)
qed

section \<open>Messages for unknown transfers\<close>

text \<open>
  Claim C9 as stated fails, for control messages. A control message for a transfer
  that is terminal and still in the list is not dropped: below, the record completed
  by its only chunk is paused by a \<^verbatim>\<open>pause\<close> message. A \<^verbatim>\<open>cancel\<close> message for an
  id whose metadata has not been seen is not dropped either: it schedules the removal,
  and the record the metadata message creates afterwards is removed when the timer
  fires.
\<close>

theorem unknown_transfer_counterexample:
  "map status (activeTransfers (fst (play emptyPage
       [Data 0 (MetadataMsg note1), Data 1 (ChunkMsg ''file-a'' 0 [1, 2])]))) = [Completed]
   \<and> map status (activeTransfers (fst (play emptyPage
       [Data 0 (MetadataMsg note1), Data 1 (ChunkMsg ''file-a'' 0 [1, 2]),
        Data 2 (ControlMsg ''file-a'' ''pause'')]))) = [Paused]
   \<and> activeTransfers (fst (play emptyPage
       [Data 0 (ControlMsg ''file-a'' ''cancel''), Data 1 (MetadataMsg note1)]))
       = [newTransfer 1 note1]
   \<and> activeTransfers (fst (play emptyPage
       [Data 0 (ControlMsg ''file-a'' ''cancel''), Data 1 (MetadataMsg note1), Timeout 0])) = []"
  by (simp add: handleData_def receiveChunk_def newTransfer_def setStatus_def map_size_def
        percent_def Let_def fire_def removeAt_def removeTransfer_def)

text \<open>
  Claim C9, amended. A chunk message whose file id no record in status
  \<^verbatim>\<open>transferring\<close> has (no record at all, or records that are paused or terminal)
  is dropped: the list is returned as it is and nothing is shown or scheduled. A
  control message whose file id no record has leaves the list as it is. No control
  message shows a toast; a \<^verbatim>\<open>cancel\<close> message schedules the removal of its file
  id, whether a record has the id or not, and the removal, when its timer fires, takes
  every record of that id out of the list as it is then. A \<^verbatim>\<open>pause\<close>,
  \<^verbatim>\<open>resume\<close> or \<^verbatim>\<open>cancel\<close> message for a record in the list sets its status,
  terminal or not. (For an id no record has the source evaluates the comparison of ids
  only, which cannot throw.)
\<close>

theorem unknown_transfer_messages:
  "((\<forall>t\<in>set ts. id_t t = fid \<longrightarrow> status t \<noteq> Transferring) \<longrightarrow>
        handleData now ts (ChunkMsg fid idx dat) = (ts, []))
   \<and> ((\<forall>t\<in>set ts. id_t t \<noteq> fid) \<longrightarrow> fst (handleData now ts (ControlMsg fid action)) = ts)
   \<and> snd (handleData now ts (ControlMsg fid action))
        = (if action = ''cancel'' then [RemoveLater fid] else [])
   \<and> activeTransfers (fire (RemoveLater fid) p) = filter (\<lambda>t. id_t t \<noteq> fid) (activeTransfers p)
   \<and> map status (fst (handleData now ts (ControlMsg fid ''pause'')))
        = map (\<lambda>t. if id_t t = fid then Paused else status t) ts
   \<and> map status (fst (handleData now ts (ControlMsg fid ''resume'')))
        = map (\<lambda>t. if id_t t = fid then Transferring else status t) ts
   \<and> map status (fst (handleData now ts (ControlMsg fid ''cancel'')))
        = map (\<lambda>t. if id_t t = fid then Cancelled else status t) ts"
proof -
  have a: "(\<forall>t\<in>set ts. id_t t = fid \<longrightarrow> status t \<noteq> Transferring) \<Longrightarrow>
        handleData now ts (ChunkMsg fid idx dat) = (ts, [])"
    by (intro handleData_chunk_skip) auto
  have b: "(\<forall>t\<in>set ts. id_t t \<noteq> fid) \<Longrightarrow> fst (handleData now ts (ControlMsg fid action)) = ts"
    by (simp add: handleData_def map_setStatus_other)
  have c: "snd (handleData now ts (ControlMsg fid action))
        = (if action = ''cancel'' then [RemoveLater fid] else [])"
    by (simp add: handleData_def)
  have d: "activeTransfers (fire (RemoveLater fid) p) = filter (\<lambda>t. id_t t \<noteq> fid) (activeTransfers p)"
    by (simp add: fire_def removeTransfer_def)
  have e: "map status (fst (handleData now ts (ControlMsg fid ''pause'')))
        = map (\<lambda>t. if id_t t = fid then Paused else status t) ts"
     "map status (fst (handleData now ts (ControlMsg fid ''resume'')))
        = map (\<lambda>t. if id_t t = fid then Transferring else status t) ts"
     "map status (fst (handleData now ts (ControlMsg fid ''cancel'')))
        = map (\<lambda>t. if id_t t = fid then Cancelled else status t) ts"
    by (simp_all add: handleData_def status_setStatus comp_def)
  show ?thesis using a b c d e by blast
qed

theorem unknown_transfer_messages_witness:
  "handleData 7 [(newTransfer 0 note1)\<lparr>status := Cancelled\<rparr>] (ChunkMsg ''file-a'' 0 [1, 2])
     = ([(newTransfer 0 note1)\<lparr>status := Cancelled\<rparr>], [])
   \<and> handleData 7 [newTransfer 0 note1] (ControlMsg ''file-b'' ''cancel'')
     = ([newTransfer 0 note1], [RemoveLater ''file-b''])
   \<and> activeTransfers (fire (RemoveLater ''file-b'')
        \<lparr>activeTransfers = [newTransfer 0 note1, newTransfer 8 other1], timers = [],
         posted = [], workerInitialised = True\<rparr>) = [newTransfer 0 note1]"
proof -
  have h1: "\<forall>t\<in>set [(newTransfer 0 note1)\<lparr>status := Cancelled\<rparr>].
              id_t t = ''file-a'' \<longrightarrow> status t \<noteq> Transferring"
    by simp
  have h2: "\<forall>t\<in>set [newTransfer 0 note1]. id_t t \<noteq> ''file-b''"
    by (simp add: newTransfer_def)
  have c1: "handleData 7 [(newTransfer 0 note1)\<lparr>status := Cancelled\<rparr>] (ChunkMsg ''file-a'' 0 [1, 2])
     = ([(newTransfer 0 note1)\<lparr>status := Cancelled\<rparr>], [])"
    using unknown_transfer_messages[of "[(newTransfer 0 note1)\<lparr>status := Cancelled\<rparr>]" "''file-a''" 7 0 "[1, 2]"] h1
    by blast
  have c2: "handleData 7 [newTransfer 0 note1] (ControlMsg ''file-b'' ''cancel'')
     = ([newTransfer 0 note1], [RemoveLater ''file-b''])"
    using unknown_transfer_messages[of "[newTransfer 0 note1]" "''file-b''" 7 0 "[]" "''cancel''"] h2
    by (simp add: prod_eq_iff)
  have c3: "activeTransfers (fire (RemoveLater ''file-b'')
        \<lparr>activeTransfers = [newTransfer 0 note1, newTransfer 8 other1], timers = [],
         posted = [], workerInitialised = True\<rparr>) = [newTransfer 0 note1]"
    using unknown_transfer_messages[of "[]" "''file-b''" 0 0 "[]" "''cancel''"
        "\<lparr>activeTransfers = [newTransfer 0 note1, newTransfer 8 other1], timers = [],
         posted = [], workerInitialised = True\<rparr>"]
    by (simp add: newTransfer_def)
  show ?thesis using c1 c2 c3 by blast
qed

section \<open>Chunks for a paused transfer\<close>

text \<open>
  Claim C2 as stated fails: the chunk handler accepts a chunk only for a record in status
  \<^verbatim>\<open>transferring\<close>. Below, chunk 1 arrives after the pause message and is not
  stored: the mapping holds index 0 only and \<open>receivedSize\<close> is 16384 of the 16386
  bytes.
\<close>

theorem paused_chunk_dropped_counterexample:
  "run [] [(0, MetadataMsg big2),
           (1, ChunkMsg ''file-c'' 0 (replicate 16384 1)),
           (2, ControlMsg ''file-c'' ''pause''),
           (3, ChunkMsg ''file-c'' 1 [2, 2])]
   = ([\<lparr>id_t = ''file-c'', metadata = big2,
        progress = Num 50, status = Paused, direction = Receiving, file_t = None,
        chunks = Some [(0, replicate 16384 1)], receivedSize = 16384, startTime = 0,
        pausedAt = None, error_t = None\<rparr>],
      [Toast ''Receiving File'' ''Starting to receive: c.bin''])"
  by (simp add: handleData_def receiveChunk_def newTransfer_def setStatus_def map_size_def percent_def Let_def)

text \<open>
  Claim C2, amended. While a record is paused, every chunk message is ignored for it,
  whatever file id and index it carries: after any run of chunk messages the record is
  the same (mapping, \<open>receivedSize\<close>, progress and status), so the chunks that arrive
  during a pause are dropped and count for nothing.
\<close>

theorem paused_chunks_dropped:
  assumes "\<forall>(now, msg)\<in>set ms. isChunk msg" and "k < length ts" and "status (ts ! k) = Paused"
  shows "k < length (fst (run ts ms)) \<and> fst (run ts ms) ! k = ts ! k"
  using assms
proof (induction ms arbitrary: ts)
  case Nil
  then show ?case by simp
next
  case (Cons a ms)
  obtain now msg where a: "a = (now, msg)" by (cases a)
  obtain f idx dat where msg: "msg = ChunkMsg f idx dat"
    using Cons.prems(1) a by (cases msg) simp_all
  let ?ts = "fst (handleData now ts msg)"
  have skip: "receiveChunk f idx dat (ts ! k) = (ts ! k, [])"
    using Cons.prems(3) by (intro receiveChunk_skip) simp
  have len: "k < length ?ts" using Cons.prems(2) msg by (simp add: handleData_def)
  have same: "?ts ! k = ts ! k" using Cons.prems(2) msg skip by (simp add: handleData_def)
  have st: "status (?ts ! k) = Paused" using same Cons.prems(3) by simp
  have rest: "\<forall>(now, msg)\<in>set ms. isChunk msg" using Cons.prems(1) by simp
  show ?case
    unfolding a fst_run_Cons using Cons.IH[OF rest len st] same by simp
qed

theorem paused_chunks_dropped_witness:
  "fst (run [\<lparr>id_t = ''file-a'', metadata = note4, progress = Num 25, status = Paused,
        direction = Receiving, file_t = None, chunks = Some [(0, part0)], receivedSize = 16384,
        startTime = 0, pausedAt = None, error_t = None\<rparr>]
       [(3, ChunkMsg ''file-a'' 1 part1), (4, ChunkMsg ''file-a'' 2 part2), (5, ChunkMsg ''file-a'' 3 part3)]) ! 0
   = \<lparr>id_t = ''file-a'', metadata = note4, progress = Num 25, status = Paused,
        direction = Receiving, file_t = None, chunks = Some [(0, part0)], receivedSize = 16384,
        startTime = 0, pausedAt = None, error_t = None\<rparr>"
proof -
  let ?t = "\<lparr>id_t = ''file-a'', metadata = note4, progress = Num 25, status = Paused,
        direction = Receiving, file_t = None, chunks = Some [(0, part0)], receivedSize = 16384,
        startTime = 0, pausedAt = None, error_t = None\<rparr>"
  let ?ms = "[(3, ChunkMsg ''file-a'' 1 part1), (4, ChunkMsg ''file-a'' 2 part2), (5::nat, ChunkMsg ''file-a'' 3 part3)]"
  have h: "\<forall>(now, msg)\<in>set ?ms. isChunk msg" "0 < length [?t]" "status ([?t] ! 0) = Paused"
    by simp_all
  show ?thesis
    using paused_chunks_dropped[OF h] by simp
qed

section \<open>Terminal statuses\<close>

text \<open>
  Claim C4 as stated fails: a control message sets the status of the records of its
  file id without looking at the status they have. Below, a completed transfer is back
  in status \<^verbatim>\<open>transferring\<close> after a \<^verbatim>\<open>resume\<close> message.
\<close>

theorem terminal_status_changed_counterexample:
  "map status (fst (run [] [(0, MetadataMsg note1), (1, ChunkMsg ''file-a'' 0 [1, 2])])) = [Completed]
   \<and> map status (fst (run [] [(0, MetadataMsg note1), (1, ChunkMsg ''file-a'' 0 [1, 2]),
                              (2, ControlMsg ''file-a'' ''resume'')])) = [Transferring]"
  by (simp add: handleData_def receiveChunk_def newTransfer_def setStatus_def map_size_def percent_def Let_def)

text \<open>
  Claim C4, amended. A \<^verbatim>\<open>pause\<close>, \<^verbatim>\<open>resume\<close> or \<^verbatim>\<open>cancel\<close> control
  message sets the status of every record of its file id to paused, transferring or
  cancelled, whatever the status was, terminal or not, and leaves the status of the
  other records. A control message with another action changes nothing; a chunk
  message changes no record in a terminal status (completed, cancelled, error); a
  metadata message changes no record that exists.
\<close>

theorem control_sets_status:
  "map status (fst (handleData now ts (ControlMsg fid ''pause'')))
     = map (\<lambda>t. if id_t t = fid then Paused else status t) ts
   \<and> map status (fst (handleData now ts (ControlMsg fid ''resume'')))
     = map (\<lambda>t. if id_t t = fid then Transferring else status t) ts
   \<and> map status (fst (handleData now ts (ControlMsg fid ''cancel'')))
     = map (\<lambda>t. if id_t t = fid then Cancelled else status t) ts
   \<and> (action \<notin> {''pause'', ''resume'', ''cancel''} \<longrightarrow>
        handleData now ts (ControlMsg fid action) = (ts, []))
   \<and> ((\<forall>t\<in>set ts. id_t t = fid \<longrightarrow> status t \<in> {Completed, Cancelled, Error}) \<longrightarrow>
        handleData now ts (ChunkMsg fid idx dat) = (ts, []))
   \<and> take (length ts) (fst (handleData now ts (MetadataMsg m))) = ts"
proof -
  have "(\<forall>t\<in>set ts. id_t t = fid \<longrightarrow> status t \<in> {Completed, Cancelled, Error}) \<Longrightarrow>
        handleData now ts (ChunkMsg fid idx dat) = (ts, [])"
    by (intro handleData_chunk_skip) auto
  then show ?thesis
    by (simp add: handleData_def status_setStatus comp_def)
qed

theorem control_sets_status_witness:
  "map status (fst (handleData 9 [(newTransfer 0 note1)\<lparr>status := Completed\<rparr>] (ControlMsg ''file-a'' ''pause''))) = [Paused]
   \<and> map status (fst (handleData 9 [(newTransfer 0 note1)\<lparr>status := Completed\<rparr>] (ControlMsg ''file-a'' ''resume''))) = [Transferring]
   \<and> map status (fst (handleData 9 [(newTransfer 0 note1)\<lparr>status := Completed\<rparr>] (ControlMsg ''file-a'' ''cancel''))) = [Cancelled]
   \<and> handleData 9 [(newTransfer 0 note1)\<lparr>status := Completed\<rparr>] (ControlMsg ''file-a'' ''stop'')
       = ([(newTransfer 0 note1)\<lparr>status := Completed\<rparr>], [])
   \<and> handleData 9 [(newTransfer 0 note1)\<lparr>status := Completed\<rparr>] (ChunkMsg ''file-a'' 0 [7])
       = ([(newTransfer 0 note1)\<lparr>status := Completed\<rparr>], [])"
  using control_sets_status[of 9 "[(newTransfer 0 note1)\<lparr>status := Completed\<rparr>]" "''file-a''" "''stop''" 0 "[7]" note1]
  by (simp add: newTransfer_def)

section \<open>Records per file id\<close>

lemma count_handleData:
  "length (filter (\<lambda>t. id_t t = fid) (fst (handleData now ts msg))) =
     length (filter (\<lambda>t. id_t t = fid) ts) + (if isMetadataFor fid msg then 1 else 0)"
proof (cases msg)
  case (MetadataMsg m)
  then show ?thesis by (simp add: handleData_def newTransfer_def)
next
  case (ChunkMsg f idx dat)
  then show ?thesis by (simp add: handleData_def filter_map comp_def id_receiveChunk)
next
  case (ControlMsg f action)
  then show ?thesis by (simp add: handleData_def filter_map comp_def id_setStatus)
next
  case OtherMsg
  then show ?thesis by (simp add: handleData_def)
qed

text \<open>
  Claim C5 as stated fails: nothing compares the id of a metadata message with the ids
  of the active transfers. Below, the same metadata message twice gives two records
  with the same id.
\<close>

theorem duplicate_metadata_counterexample:
  "map id_t (fst (run [] [(0, MetadataMsg note1), (1, MetadataMsg note1)])) = [''file-a'', ''file-a'']"
  by (simp add: handleData_def newTransfer_def)

text \<open>
  Claim C5, amended. Every metadata message appends a new record (status
  \<^verbatim>\<open>transferring\<close>, empty mapping) to the list of active transfers and leaves the
  records that exist as they are, also when one of them has the same id: none is
  rejected or merged, and the list has one more record of this id than before.
\<close>

theorem metadata_always_appends:
  "fst (handleData now ts (MetadataMsg m)) = ts @ [newTransfer now m]
   \<and> id_t (newTransfer now m) = id_m m
   \<and> status (newTransfer now m) = Transferring
   \<and> chunks (newTransfer now m) = Some []
   \<and> length (filter (\<lambda>t. id_t t = id_m m) (fst (handleData now ts (MetadataMsg m))))
       = length (filter (\<lambda>t. id_t t = id_m m) ts) + 1"
  using count_handleData[of "id_m m" now ts "MetadataMsg m"]
  by (simp add: handleData_def newTransfer_def)

theorem metadata_always_appends_witness:
  "fst (handleData 1 [newTransfer 0 note1] (MetadataMsg note1)) = [newTransfer 0 note1, newTransfer 1 note1]
   \<and> length (filter (\<lambda>t. id_t t = ''file-a'')
        (fst (handleData 1 [newTransfer 0 note1] (MetadataMsg note1)))) = 2"
  using metadata_always_appends[of 1 "[newTransfer 0 note1]" note1]
  by (simp add: newTransfer_def)

section \<open>A file of zero bytes\<close>

lemma stuck_receiveChunk: "stuck t \<Longrightarrow> stuck (fst (receiveChunk fid idx dat t))"
  using map_size_map_set_pos[of idx dat "case chunks t of None \<Rightarrow> [] | Some m \<Rightarrow> m"]
  by (simp add: stuck_def receiveChunk_def Let_def)

lemma stuck_setStatus: "stuck t \<Longrightarrow> st \<noteq> Completed \<Longrightarrow> stuck (setStatus fid st t)"
  by (simp add: stuck_def setStatus_def)

lemma stuck_handleData:
  assumes "ts \<noteq> []" "stuck (hd ts)"
  shows "fst (handleData now ts msg) \<noteq> [] \<and> stuck (hd (fst (handleData now ts msg)))"
proof (cases msg)
  case (MetadataMsg m)
  then show ?thesis using assms by (simp add: handleData_def)
next
  case (ChunkMsg fid idx dat)
  then show ?thesis using assms by (simp add: handleData_def hd_map stuck_receiveChunk)
next
  case (ControlMsg fid action)
  then show ?thesis using assms by (simp add: handleData_def hd_map stuck_setStatus)
next
  case OtherMsg
  then show ?thesis using assms by (simp add: handleData_def)
qed

lemma stuck_run:
  "ts \<noteq> [] \<Longrightarrow> stuck (hd ts) \<Longrightarrow> fst (run ts ms) \<noteq> [] \<and> stuck (hd (fst (run ts ms)))"
proof (induction ms arbitrary: ts)
  case Nil
  then show ?case by simp
next
  case (Cons a ms)
  obtain now msg where a: "a = (now, msg)" by (cases a)
  let ?ts' = "fst (handleData now ts msg)"
  have "?ts' \<noteq> [] \<and> stuck (hd ?ts')"
    using stuck_handleData[OF Cons.prems, of now msg] by simp
  then have "fst (run ?ts' ms) \<noteq> [] \<and> stuck (hd (fst (run ?ts' ms)))"
    using Cons.IH by blast
  then show ?case unfolding a fst_run_Cons .
qed

text \<open>
  Claim C7. For a file of zero bytes the chunker computes \<open>totalChunks = 0\<close>, emits no
  chunk and calls \<^verbatim>\<open>onComplete\<close> at once. The receiver creates the record from the
  metadata message, and no run of messages completes it: the completion check is made
  when a chunk is stored, and then the size of the mapping is at least 1. So the
  receiver never assembles the empty file.
\<close>

theorem zero_byte_transfer_never_completes:
  "chunkFile \<lparr>name_f = nm, type_f = ty, bytes_f = []\<rparr> reads fid
     = (fid, \<lparr>id_m = fid, name_m = nm, type_m = ty, size_m = 0, totalChunks = 0\<rparr>,
        [OnComplete])
   \<and> status (hd (fst (run [] ((now, MetadataMsg \<lparr>id_m = fid, name_m = nm, type_m = ty,
                                                  size_m = 0, totalChunks = 0\<rparr>) # ms))))
       \<noteq> Completed"
proof -
  let ?m = "\<lparr>id_m = fid, name_m = nm, type_m = ty, size_m = 0, totalChunks = 0\<rparr>"
  have "totalChunksOf 0 = 0" by (simp add: totalChunksOf_div)
  then have a: "chunkFile \<lparr>name_f = nm, type_f = ty, bytes_f = []\<rparr> reads fid
     = (fid, ?m, [OnComplete])"
    by (simp add: chunkFile_def size_f_def Let_def processNextChunk.simps)
  have "stuck (hd [newTransfer now ?m])" by (simp add: stuck_def newTransfer_def)
  then have "stuck (hd (fst (run [newTransfer now ?m] ms)))"
    using stuck_run[of "[newTransfer now ?m]" ms] by simp
  then have "status (hd (fst (run [] ((now, MetadataMsg ?m) # ms)))) \<noteq> Completed"
    unfolding fst_run_Cons by (simp add: handleData_def stuck_def)
  then show ?thesis using a by simp
qed

theorem zero_byte_transfer_never_completes_witness:
  "status (hd (fst (run [] [(0, MetadataMsg \<lparr>id_m = ''file-e'', name_m = ''empty.txt'',
                                              type_m = ''text/plain'', size_m = 0, totalChunks = 0\<rparr>),
                            (1, ChunkMsg ''file-e'' 0 []),
                            (2, ControlMsg ''file-e'' ''resume'')]))) \<noteq> Completed"
  by (rule conjunct2[OF zero_byte_transfer_never_completes
        [of "''empty.txt''" "''text/plain''" "\<lambda>_. Loaded" "''file-e''" 0
            "[(1, ChunkMsg ''file-e'' 0 []), (2, ControlMsg ''file-e'' ''resume'')]"]])

section \<open>Completion\<close>

lemma fired_step1:
  assumes "fired fid m t" "\<not> isResume fid msg"
  shows "fired fid m (step1 msg t)" "chunks (step1 msg t) = chunks t"
        "completions fid (effects1 msg t) = []"
        "\<not> isPauseOrCancel fid msg \<Longrightarrow> status (step1 msg t) = status t"
  using assms
  by (cases msg; auto simp: fired_def step1_def effects1_def receiveChunk_def setStatus_def)+

lemma pending_step1:
  assumes "pending fid m t"
  shows "(pending fid m (step1 msg t) \<and> completions fid (effects1 msg t) = [])
       \<or> (fired fid m (step1 msg t) \<and> status (step1 msg t) = Completed
          \<and> (\<exists>s. completions fid (effects1 msg t) = [s] \<and> chunks s = chunks (step1 msg t)
                   \<and> metadata s = m \<and> id_t s = fid))"
proof (cases msg)
  case (MetadataMsg m')
  then show ?thesis using assms by (simp add: step1_def effects1_def)
next
  case (ChunkMsg f idx dat)
  show ?thesis
  proof (cases "f = fid \<and> status t = Transferring")
    case False
    then have "receiveChunk f idx dat t = (t, [])"
      using assms by (auto simp: receiveChunk_def pending_def)
    then show ?thesis using assms ChunkMsg by (simp add: step1_def effects1_def)
  next
    case True
    obtain mp where mp: "chunks t = Some mp" using assms by (auto simp: pending_def)
    have pos: "0 < map_size (map_set idx dat mp)" by (rule map_size_map_set_pos)
    show ?thesis
      using assms True mp pos ChunkMsg
      by (auto simp: step1_def effects1_def receiveChunk_def Let_def pending_def fired_def)
  qed
next
  case (ControlMsg f action)
  then show ?thesis
    using assms by (auto simp: step1_def effects1_def pending_def setStatus_def)
next
  case OtherMsg
  then show ?thesis using assms by (simp add: step1_def effects1_def)
qed

lemma gathering_step1:
  assumes "gathering fid m seen t" "\<not> isPauseOrCancel fid msg" "\<not> isMetadataFor fid msg"
  shows "if 0 < totalChunks m \<and> totalChunks m \<le> card (seen \<union> set (eventChunkIndices fid [Data now msg]))
         then fired fid m (step1 msg t) \<and> status (step1 msg t) = Completed
            \<and> length (completions fid (effects1 msg t)) = 1
         else gathering fid m (seen \<union> set (eventChunkIndices fid [Data now msg])) (step1 msg t)
            \<and> completions fid (effects1 msg t) = []"
proof -
  obtain mp where mp: "chunks t = Some mp" "distinct (map fst mp)" "fst ` set mp = seen"
    using assms(1) by (auto simp: gathering_def)
  have fin: "finite seen" using mp(3) by auto
  have base: "id_t t = fid" "metadata t = m" "status t = Transferring"
      "totalChunks m = 0 \<or> card seen < totalChunks m"
    using assms(1) by (auto simp: gathering_def)
  have same: "\<not> (0 < totalChunks m \<and> totalChunks m \<le> card seen)" using base(4) by auto
  show ?thesis
  proof (cases "\<exists>idx dat. msg = ChunkMsg fid idx dat")
    case False
    then have ci: "eventChunkIndices fid [Data now msg] = []"
      by (cases msg) auto
    have keep: "t\<lparr>status := Transferring\<rparr> = t" using base(3) by (cases t) simp
    have "step1 msg t = t \<and> effects1 msg t = []"
      using False assms(2,3) base keep
      by (cases msg) (auto simp: step1_def effects1_def receiveChunk_def setStatus_def)
    then show ?thesis using same assms(1) ci by simp
  next
    case True
    then obtain idx dat where msg: "msg = ChunkMsg fid idx dat" by blast
    let ?mp' = "map_set idx dat mp"
    have d': "distinct (map fst ?mp')" using mp(2) by (rule distinct_map_set)
    have k': "fst ` set ?mp' = insert idx seen" using mp(3) by (simp add: keys_map_set)
    have sz: "map_size ?mp' = card (insert idx seen)" using map_size_card[OF d'] k' by simp
    have le: "card (insert idx seen) \<le> Suc (card seen)" using fin by (simp add: card_insert_if)
    have ci: "seen \<union> set (eventChunkIndices fid [Data now msg]) = insert idx seen"
      using msg by auto
    show ?thesis
    proof (cases "0 < totalChunks m \<and> totalChunks m \<le> card (insert idx seen)")
      case True
      then have eq: "card (insert idx seen) = totalChunks m" using le base(4) by linarith
      show ?thesis
        unfolding ci using True eq msg mp(1) base sz
        by (simp add: step1_def effects1_def receiveChunk_def Let_def fired_def)
    next
      case False
      then have ne: "card (insert idx seen) \<noteq> totalChunks m \<or> totalChunks m = 0" by auto
      have pos: "0 < card (insert idx seen)" using fin by (simp add: card_gt_0_iff)
      have ne': "card (insert idx seen) \<noteq> totalChunks m" using ne pos by auto
      have lt: "totalChunks m = 0 \<or> card (insert idx seen) < totalChunks m" using False by auto
      show ?thesis
        unfolding ci using False ne' lt msg mp(1) base sz d' k'
        by (simp add: step1_def effects1_def receiveChunk_def Let_def gathering_def)
    qed
  qed
qed

lemma pending_newTransfer: "pending (id_m m) m (newTransfer now m)"
  by (simp add: pending_def newTransfer_def map_size_def)

lemma gathering_newTransfer: "gathering (id_m m) m {} (newTransfer now m)"
  by (auto simp: gathering_def newTransfer_def)

text \<open>One event, and then a list of events, in each state of the page.\<close>

lemma completes_completions:
  "e \<in> set fx \<Longrightarrow> completes fid e \<Longrightarrow> \<exists>s. e = CompleteLater s \<and> s \<in> set (completions fid fx)"
proof (induction fid fx rule: completions.induct)
  case (2 fid t fx)
  then show ?case by (cases e) auto
qed auto

lemma completions_concat_Nil:
  "\<forall>t\<in>set xs. completions fid (f t) = [] \<Longrightarrow> completions fid (concat (map f xs)) = []"
  by (induction xs) (simp_all add: completions_append)

lemma set_removeAt_subset: "x \<in> set (removeAt k xs) \<Longrightarrow> x \<in> set xs"
  unfolding removeAt_def by (auto dest: in_set_takeD in_set_dropD)

lemma timers_step:
  "e \<in> set (timers (fst (step ev p))) \<Longrightarrow> e \<in> set (timers p) \<or> e \<in> set (snd (step ev p))"
proof (cases ev)
  case (Data now msg)
  assume "e \<in> set (timers (fst (step ev p)))"
  then show ?thesis unfolding Data other_Data by auto
next
  case (Timeout k)
  assume "e \<in> set (timers (fst (step ev p)))"
  then show ?thesis unfolding Timeout
    by (auto simp: timers_fire dest: set_removeAt_subset split: if_splits)
next
  case (WorkerReply k)
  assume "e \<in> set (timers (fst (step ev p)))"
  then show ?thesis unfolding WorkerReply
    by (auto simp: other_onWorkerMessage split: if_splits)
qed

lemma completions_step:
  "completions fid (snd (step ev p)) =
     (case ev of Data now msg \<Rightarrow> completions fid (concat (map (effects1 msg) (recordsOf fid p)))
               | _ \<Rightarrow> [])"
proof (cases ev)
  case (Data now msg)
  then show ?thesis using completions_Data[of fid now msg p] by simp
next
  case (Timeout k)
  then show ?thesis by simp
next
  case (WorkerReply k)
  then show ?thesis by (simp add: other_onWorkerMessage)
qed

lemma recordsOf_timers_update [simp]: "recordsOf fid (p\<lparr>timers := x\<rparr>) = recordsOf fid p"
  by (simp add: recordsOf_def)

lemma recordsOf_posted_update [simp]: "recordsOf fid (p\<lparr>posted := x\<rparr>) = recordsOf fid p"
  by (simp add: recordsOf_def)

lemma recordsOf_Timeout:
  "recordsOf fid (fst (step (Timeout k) p)) = recordsOf fid p
   \<or> recordsOf fid (fst (step (Timeout k) p)) = []
   \<or> (\<exists>s. CompleteLater s \<in> set (timers p) \<and> id_t s = fid
          \<and> recordsOf fid (fst (step (Timeout k) p)) = map mark (recordsOf fid p))"
proof (cases "k < length (timers p)")
  case False
  then show ?thesis by simp
next
  case True
  then have mem: "timers p ! k \<in> set (timers p)" by simp
  show ?thesis
  proof (cases "timers p ! k")
    case (Toast title descr)
    then show ?thesis using True by (simp add: recordsOf_fire)
  next
    case (CompleteLater s)
    then show ?thesis using True mem by (auto simp: recordsOf_fire)
  next
    case (RemoveLater f)
    then show ?thesis using True by (simp add: recordsOf_fire)
  qed
qed

lemma recordsOf_Timeout_quiet:
  assumes "\<forall>e\<in>set (timers p). \<not> mentions fid e"
  shows "recordsOf fid (fst (step (Timeout k) p)) = recordsOf fid p"
proof (cases "k < length (timers p)")
  case False
  then show ?thesis by simp
next
  case True
  then have mem: "\<not> mentions fid (timers p ! k)" using assms by simp
  show ?thesis
    using True mem by (cases "timers p ! k") (simp_all add: recordsOf_fire)
qed

lemma recordsOf_WorkerReply:
  "recordsOf fid (fst (step (WorkerReply k) p)) = recordsOf fid p
   \<or> (\<exists>r\<in>set (posted p). requestId r = fid) \<and> recordsOf fid (fst (step (WorkerReply k) p)) = []"
proof (cases "k < length (posted p)")
  case False
  then show ?thesis by simp
next
  case True
  then have mem: "posted p ! k \<in> set (posted p)" by simp
  show ?thesis
    using True mem recordsOf_onWorkerMessage[of fid "posted p ! k" "p\<lparr>posted := removeAt k (posted p)\<rparr>"]
    by auto
qed

lemma mark_fired: "fired fid m t \<Longrightarrow> fired fid m (mark t) \<and> chunks (mark t) = chunks t"
  by (auto simp: fired_def mark_def)

lemma fired_complete: "fired fid m t \<Longrightarrow> hasAllChunks t"
  by (auto simp: fired_def hasAllChunks_def)

lemma pending_incomplete: "pending fid m t \<Longrightarrow> 0 < totalChunks m \<Longrightarrow> \<not> hasAllChunks t"
  by (auto simp: pending_def hasAllChunks_def)

lemma unscheduled_step:
  assumes "unscheduled fid p" "completions fid (snd (step ev p)) = []"
  shows "unscheduled fid (fst (step ev p))"
  unfolding unscheduled_def
proof
  fix e assume e: "e \<in> set (timers (fst (step ev p)))"
  show "\<not> completes fid e"
  proof
    assume c: "completes fid e"
    from timers_step[OF e] show False
    proof
      assume "e \<in> set (timers p)"
      then show False using assms(1) c by (simp add: unscheduled_def)
    next
      assume "e \<in> set (snd (step ev p))"
      then show False using completes_completions[OF _ c] assms(2) by fastforce
    qed
  qed
qed

lemma absent_step:
  assumes "absent fid p" "\<not> carries (isMetadataFor fid) ev"
  shows "absent fid (fst (step ev p)) \<and> completions fid (snd (step ev p)) = []"
proof -
  have r: "recordsOf fid p = []" and u: "unscheduled fid p"
    using assms(1) by (simp_all add: absent_def)
  have c: "completions fid (snd (step ev p)) = []"
    unfolding completions_step using r by (cases ev) simp_all
  have v: "recordsOf fid (fst (step ev p)) = []"
  proof (cases ev)
    case (Data now msg)
    then show ?thesis using assms(2) r recordsOf_Data[of fid msg now p] by simp
  next
    case (Timeout k)
    then show ?thesis using recordsOf_Timeout[of fid k p] r by auto
  next
    case (WorkerReply k)
    then show ?thesis using recordsOf_WorkerReply[of fid k p] r by auto
  qed
  show ?thesis using v c unscheduled_step[OF u c] by (simp add: absent_def)
qed

lemma settled_step:
  assumes "settled fid m s p" "\<not> carries (isMetadataFor fid) ev"
    and "\<not> (carries (isResume fid) ev \<and> (\<exists>t\<in>set (recordsOf fid p). hasAllChunks t))"
  shows "settled fid m s (fst (step ev p)) \<and> completions fid (snd (step ev p)) = []"
proof -
  have s: "id_t s = fid" "metadata s = m" "hasAllChunks s" "length (recordsOf fid p) \<le> 1"
    and f: "\<And>t. t \<in> set (recordsOf fid p) \<Longrightarrow> fired fid m t \<and> chunks t = chunks s"
    and tm: "\<And>e. e \<in> set (timers p) \<Longrightarrow> completes fid e \<Longrightarrow> e = CompleteLater s"
    using assms(1) by (simp_all add: settled_def)
  have nr: "\<not> isResume fid msg" if "ev = Data now msg" "t \<in> set (recordsOf fid p)" for now msg t
    using assms(3) that f[OF that(2)] fired_complete by auto
  have c: "completions fid (snd (step ev p)) = []"
    unfolding completions_step
  proof (cases ev)
    case (Data now msg)
    have "\<forall>t\<in>set (recordsOf fid p). completions fid (effects1 msg t) = []"
      using fired_step1(3)[of fid m _ msg] f nr[OF Data] by blast
    then show "(case ev of Data now msg \<Rightarrow> completions fid (concat (map (effects1 msg) (recordsOf fid p)))
               | _ \<Rightarrow> []) = []" unfolding Data
      by (simp add: completions_concat_Nil)
  qed simp_all
  have v: "length (recordsOf fid (fst (step ev p))) \<le> 1
      \<and> (\<forall>t\<in>set (recordsOf fid (fst (step ev p))). fired fid m t \<and> chunks t = chunks s)"
  proof (cases ev)
    case (Data now msg)
    have "recordsOf fid (fst (step ev p)) = map (step1 msg) (recordsOf fid p)"
      using assms(2) Data recordsOf_Data[of fid msg now p] by simp
    moreover have "fired fid m (step1 msg t) \<and> chunks (step1 msg t) = chunks s"
      if "t \<in> set (recordsOf fid p)" for t
      using fired_step1(1,2)[of fid m t msg] f[OF that] nr[OF Data that] by simp
    ultimately show ?thesis using s(4) by auto
  next
    case (Timeout k)
    have "\<forall>t\<in>set (map mark (recordsOf fid p)). fired fid m t \<and> chunks t = chunks s"
      using f mark_fired by fastforce
    then show ?thesis using recordsOf_Timeout[of fid k p] s(4) f unfolding Timeout
      by (elim disjE exE conjE) simp_all
  next
    case (WorkerReply k)
    then show ?thesis using recordsOf_WorkerReply[of fid k p] s(4) f by auto
  qed
  have t': "e = CompleteLater s" if "e \<in> set (timers (fst (step ev p)))" "completes fid e" for e
    using timers_step[OF that(1)]
  proof
    assume "e \<in> set (timers p)"
    then show ?thesis using tm that(2) by simp
  next
    assume "e \<in> set (snd (step ev p))"
    then show ?thesis using completes_completions[OF _ that(2)] c by fastforce
  qed
  show ?thesis using s v t' c by (simp add: settled_def)
qed

lemma awaiting_step:
  assumes "awaiting fid m p" "0 < totalChunks m" "\<not> carries (isMetadataFor fid) ev"
  shows "((awaiting fid m (fst (step ev p)) \<or> absent fid (fst (step ev p)))
            \<and> completions fid (snd (step ev p)) = [])
       \<or> (\<exists>s. settled fid m s (fst (step ev p)) \<and> completions fid (snd (step ev p)) = [s]
              \<and> (\<forall>t\<in>set (recordsOf fid (fst (step ev p))). status t = Completed))"
proof -
  obtain t where t: "recordsOf fid p = [t]" "pending fid m t" and u: "unscheduled fid p"
    using assms(1) by (auto simp: awaiting_def)
  show ?thesis
  proof (cases ev)
    case (Data now msg)
    have v: "recordsOf fid (fst (step ev p)) = [step1 msg t]"
      using assms(3) Data recordsOf_Data[of fid msg now p] t(1) by simp
    have c: "completions fid (snd (step ev p)) = completions fid (effects1 msg t)"
      unfolding Data completions_step using t(1) by simp
    from pending_step1[OF t(2), of msg] show ?thesis
    proof (elim disjE conjE exE)
      assume p': "pending fid m (step1 msg t)" and c0: "completions fid (effects1 msg t) = []"
      have "completions fid (snd (step ev p)) = []" using c c0 by simp
      then show ?thesis using v p' unscheduled_step[OF u] by (simp add: awaiting_def)
    next
      fix s
      assume f': "fired fid m (step1 msg t)" and cs: "completions fid (effects1 msg t) = [s]"
        and st: "status (step1 msg t) = Completed"
        and s: "chunks s = chunks (step1 msg t)" "metadata s = m" "id_t s = fid"
      have cmp: "hasAllChunks s" using s f' by (auto simp: hasAllChunks_def fired_def)
      have t': "e = CompleteLater s" if "e \<in> set (timers (fst (step ev p)))" "completes fid e" for e
        using timers_step[OF that(1)]
      proof
        assume "e \<in> set (timers p)"
        then show ?thesis using u that(2) by (simp add: unscheduled_def)
      next
        assume "e \<in> set (snd (step ev p))"
        then show ?thesis using completes_completions[OF _ that(2)] c cs by fastforce
      qed
      have "settled fid m s (fst (step ev p))"
        using v f' s cmp t' by (simp add: settled_def)
      then show ?thesis using c cs v st by auto
    qed
  next
    case (Timeout k)
    have c: "completions fid (snd (step ev p)) = []" unfolding Timeout completions_step by simp
    have no: "\<not> (\<exists>s. CompleteLater s \<in> set (timers p) \<and> id_t s = fid)"
      using u by (auto simp: unscheduled_def)
    have "recordsOf fid (fst (step ev p)) = [t] \<or> recordsOf fid (fst (step ev p)) = []"
      using recordsOf_Timeout[of fid k p] no t(1) unfolding Timeout by auto
    then show ?thesis using c t(2) unscheduled_step[OF u c] by (auto simp: awaiting_def absent_def)
  next
    case (WorkerReply k)
    have c: "completions fid (snd (step ev p)) = []" unfolding WorkerReply completions_step by simp
    have "recordsOf fid (fst (step ev p)) = [t] \<or> recordsOf fid (fst (step ev p)) = []"
      using recordsOf_WorkerReply[of fid k p] t(1) unfolding WorkerReply by auto
    then show ?thesis using c t(2) unscheduled_step[OF u c] by (auto simp: awaiting_def absent_def)
  qed
qed

lemma completed_step:
  assumes "\<forall>t\<in>set (recordsOf fid p). fired fid m t \<and> status t = Completed"
    and "\<not> carries (isMetadataFor fid) ev" "\<not> carries (isPauseOrCancel fid) ev"
    and "\<not> (carries (isResume fid) ev \<and> (\<exists>t\<in>set (recordsOf fid p). hasAllChunks t))"
  shows "\<forall>t\<in>set (recordsOf fid (fst (step ev p))). status t = Completed"
proof (cases ev)
  case (Data now msg)
  have nc: "\<not> isPauseOrCancel fid msg" using assms(3) Data by simp
  have "recordsOf fid (fst (step ev p)) = map (step1 msg) (recordsOf fid p)"
    using assms(2) Data recordsOf_Data[of fid msg now p] by simp
  moreover have "status (step1 msg t) = Completed" if "t \<in> set (recordsOf fid p)" for t
  proof -
    have f: "fired fid m t" "status t = Completed" using assms(1) that by simp_all
    have "\<not> isResume fid msg" using assms(4) Data that fired_complete[OF f(1)] by auto
    then show ?thesis using fired_step1(4)[OF f(1) _ nc] f(2) by simp
  qed
  ultimately show ?thesis by simp
next
  case (Timeout k)
  have "\<forall>t\<in>set (map mark (recordsOf fid p)). status t = Completed"
    by (simp add: mark_def)
  then show ?thesis using recordsOf_Timeout[of fid k p] assms(1) unfolding Timeout
    by (elim disjE exE conjE) simp_all
next
  case (WorkerReply k)
  then show ?thesis using recordsOf_WorkerReply[of fid k p] assms(1) by auto
qed

lemma eventChunkIndices_Cons:
  "set (eventChunkIndices fid (ev # evs))
     = set (eventChunkIndices fid [ev]) \<union> set (eventChunkIndices fid evs)"
proof (cases ev)
  case (Data now msg)
  then show ?thesis by (cases msg) auto
qed simp_all

lemma mentions_handleData:
  assumes "\<not> isPauseOrCancel fid msg" "e \<in> set (snd (handleData now ts msg))" "mentions fid e"
  shows "completes fid e"
proof (cases msg)
  case (MetadataMsg m')
  then show ?thesis using assms by (simp add: handleData_def)
next
  case (ChunkMsg f idx dat)
  then obtain t where "e \<in> set (snd (receiveChunk f idx dat t))"
    using assms(2) by (auto simp: handleData_def)
  then show ?thesis using assms(3)
    by (auto simp: receiveChunk_def Let_def split: if_splits)
next
  case (ControlMsg f action)
  then show ?thesis using assms by (auto simp: handleData_def split: if_splits)
next
  case OtherMsg
  then show ?thesis using assms by (simp add: handleData_def)
qed

lemma quiet_step:
  assumes "quiet fid p" "\<not> carries (isPauseOrCancel fid) ev"
    and "completions fid (snd (step ev p)) = []"
  shows "quiet fid (fst (step ev p))"
proof -
  have qt: "\<And>e. e \<in> set (timers p) \<Longrightarrow> \<not> mentions fid e"
    and qp: "\<And>r. r \<in> set (posted p) \<Longrightarrow> requestId r \<noteq> fid"
    using assms(1) by (auto simp: quiet_def)
  show ?thesis
  proof (cases ev)
    case (Data now msg)
    have nc: "\<not> isPauseOrCancel fid msg" using assms(2) Data by simp
    have fx: "snd (step ev p) = snd (handleData now (activeTransfers p) msg)"
      unfolding Data by (simp add: case_prod_unfold)
    have "\<not> mentions fid e" if "e \<in> set (snd (step ev p))" for e
    proof
      assume "mentions fid e"
      then have "completes fid e" using mentions_handleData[OF nc] that fx by simp
      then show False using completes_completions[OF that] assms(3) by fastforce
    qed
    then show ?thesis using qt qp unfolding Data quiet_def other_Data by auto
  next
    case (Timeout k)
    show ?thesis
    proof (cases "k < length (timers p)")
      case False
      then show ?thesis using assms(1) Timeout by simp
    next
      case True
      let ?e = "timers p ! k" and ?p = "p\<lparr>timers := removeAt k (timers p)\<rparr>"
      have e: "\<not> mentions fid ?e" using qt True by simp
      then have nc: "\<not> completes fid ?e" by (cases ?e) simp_all
      have "requestId r \<noteq> fid" if "r \<in> set (posted (fire ?e ?p))" for r
        using posted_fire[OF that] qp nc by auto
      moreover have "\<not> mentions fid x" if "x \<in> set (timers (fire ?e ?p))" for x
        using that qt by (auto simp: timers_fire dest: set_removeAt_subset)
      ultimately show ?thesis using True unfolding Timeout quiet_def by simp
    qed
  next
    case (WorkerReply k)
    show ?thesis
      using qt qp unfolding WorkerReply quiet_def
      by (auto simp: other_onWorkerMessage dest: set_removeAt_subset)
  qed
qed

lemma collecting_step:
  assumes "collecting fid m seen p" "\<not> carries (isMetadataFor fid) ev"
    and "\<not> carries (isPauseOrCancel fid) ev"
  shows "if 0 < totalChunks m \<and> totalChunks m \<le> card (seen \<union> set (eventChunkIndices fid [ev]))
         then completions fid (snd (step ev p)) \<noteq> []
         else collecting fid m (seen \<union> set (eventChunkIndices fid [ev])) (fst (step ev p))
            \<and> completions fid (snd (step ev p)) = []"
proof -
  obtain t where t: "recordsOf fid p = [t]" "gathering fid m seen t" and q: "quiet fid p"
    using assms(1) by (auto simp: collecting_def)
  have small: "\<not> (0 < totalChunks m \<and> totalChunks m \<le> card seen)"
    using t(2) by (auto simp: gathering_def)
  show ?thesis
  proof (cases ev)
    case (Data now msg)
    have nm: "\<not> isMetadataFor fid msg" and nc: "\<not> isPauseOrCancel fid msg"
      using assms(2,3) Data by simp_all
    have v: "recordsOf fid (fst (step ev p)) = [step1 msg t]"
      using nm Data recordsOf_Data[of fid msg now p] t(1) by simp
    have c: "completions fid (snd (step ev p)) = completions fid (effects1 msg t)"
      unfolding Data completions_step using t(1) by simp
    note g = gathering_step1[OF t(2) nc nm, of now]
    show ?thesis
    proof (cases "0 < totalChunks m \<and> totalChunks m \<le> card (seen \<union> set (eventChunkIndices fid [ev]))")
      case True
      then have "length (completions fid (effects1 msg t)) = 1" using g unfolding Data by simp
      then show ?thesis using True c by auto
    next
      case False
      then have g': "gathering fid m (seen \<union> set (eventChunkIndices fid [ev])) (step1 msg t)"
          "completions fid (effects1 msg t) = []"
        using g unfolding Data by simp_all
      have c0: "completions fid (snd (step ev p)) = []" using c g'(2) by simp
      show ?thesis
        using False v g'(1) c0 quiet_step[OF q assms(3) c0] by (simp add: collecting_def)
    qed
  next
    case (Timeout k)
    have c0: "completions fid (snd (step ev p)) = []" unfolding Timeout completions_step by simp
    have v: "recordsOf fid (fst (step ev p)) = [t]"
      using recordsOf_Timeout_quiet[of p fid k] q t(1) unfolding Timeout by (simp add: quiet_def)
    show ?thesis
      using small v t(2) c0 quiet_step[OF q assms(3) c0] unfolding Timeout
      by (simp add: collecting_def)
  next
    case (WorkerReply k)
    have c0: "completions fid (snd (step ev p)) = []" unfolding WorkerReply completions_step by simp
    have v: "recordsOf fid (fst (step ev p)) = [t]"
      using recordsOf_WorkerReply[of fid k p] q t(1) unfolding WorkerReply by (auto simp: quiet_def)
    show ?thesis
      using small v t(2) c0 quiet_step[OF q assms(3) c0] unfolding WorkerReply
      by (simp add: collecting_def)
  qed
qed

lemma collecting_play:
  assumes "collecting fid m seen p" "0 < totalChunks m"
    and "\<forall>ev\<in>set evs. \<not> carries (isMetadataFor fid) ev \<and> \<not> carries (isPauseOrCancel fid) ev"
  shows "if totalChunks m \<le> card (seen \<union> set (eventChunkIndices fid evs))
         then completions fid (snd (play p evs)) \<noteq> []
         else collecting fid m (seen \<union> set (eventChunkIndices fid evs)) (fst (play p evs))
            \<and> completions fid (snd (play p evs)) = []"
  using assms
proof (induction evs arbitrary: p seen)
  case Nil
  then show ?case by (auto simp: collecting_def gathering_def)
next
  case (Cons ev evs)
  have nm: "\<not> carries (isMetadataFor fid) ev" and nc: "\<not> carries (isPauseOrCancel fid) ev"
    and rest: "\<forall>ev\<in>set evs. \<not> carries (isMetadataFor fid) ev \<and> \<not> carries (isPauseOrCancel fid) ev"
    using Cons.prems(3) by simp_all
  let ?seen = "seen \<union> set (eventChunkIndices fid [ev])"
  let ?all = "seen \<union> set (eventChunkIndices fid (ev # evs))"
  have all: "?all = ?seen \<union> set (eventChunkIndices fid evs)"
    unfolding eventChunkIndices_Cons[of fid ev evs] by auto
  have "finite seen" using Cons.prems(1) by (auto simp: collecting_def gathering_def)
  then have fin: "finite ?all" by simp
  have sub: "?seen \<subseteq> ?all" unfolding all by auto
  note s = collecting_step[OF Cons.prems(1) nm nc]
  show ?case
  proof (cases "totalChunks m \<le> card ?seen")
    case True
    then have "completions fid (snd (step ev p)) \<noteq> []" using s Cons.prems(2) by simp
    moreover have "totalChunks m \<le> card ?all"
      using True card_mono[OF fin sub] by linarith
    ultimately show ?thesis
      unfolding snd_play_Cons completions_append by simp
  next
    case False
    then have s': "collecting fid m ?seen (fst (step ev p))" "completions fid (snd (step ev p)) = []"
      using s by simp_all
    show ?thesis
      using Cons.IH[OF s'(1) Cons.prems(2) rest]
      unfolding fst_play_Cons snd_play_Cons completions_append s'(2) all by simp
  qed
qed

lemma absent_play:
  assumes "absent fid p" "\<forall>ev\<in>set evs. \<not> carries (isMetadataFor fid) ev"
  shows "absent fid (fst (play p evs)) \<and> completions fid (snd (play p evs)) = []"
  using assms
proof (induction evs arbitrary: p)
  case Nil
  then show ?case by simp
next
  case (Cons ev evs)
  have s: "absent fid (fst (step ev p))" "completions fid (snd (step ev p)) = []"
    using absent_step[OF Cons.prems(1), of ev] Cons.prems(2) by simp_all
  show ?case
    using Cons.IH[OF s(1)] Cons.prems(2)
    unfolding fst_play_Cons snd_play_Cons completions_append s(2) by simp
qed

lemma settled_play:
  assumes "settled fid m s p" "\<forall>ev\<in>set evs. \<not> carries (isMetadataFor fid) ev"
    and "\<not> reopens fid p evs"
  shows "settled fid m s (fst (play p evs)) \<and> completions fid (snd (play p evs)) = []"
  using assms
proof (induction evs arbitrary: p)
  case Nil
  then show ?case by simp
next
  case (Cons ev evs)
  have nm: "\<not> carries (isMetadataFor fid) ev" using Cons.prems(2) by simp
  have nr: "\<not> (carries (isResume fid) ev \<and> (\<exists>t\<in>set (recordsOf fid p). hasAllChunks t))"
    and rest: "\<not> reopens fid (fst (step ev p)) evs"
    using Cons.prems(3) by simp_all
  have s: "settled fid m s (fst (step ev p))" "completions fid (snd (step ev p)) = []"
    using settled_step[OF Cons.prems(1) nm nr] by simp_all
  show ?case
    using Cons.IH[OF s(1) _ rest] Cons.prems(2)
    unfolding fst_play_Cons snd_play_Cons completions_append s(2) by simp
qed

lemma completed_play:
  assumes "settled fid m s p" "\<forall>t\<in>set (recordsOf fid p). status t = Completed"
    and "\<forall>ev\<in>set evs. \<not> carries (isMetadataFor fid) ev"
    and "\<forall>ev\<in>set evs. \<not> carries (isPauseOrCancel fid) ev"
    and "\<not> reopens fid p evs"
  shows "\<forall>t\<in>set (recordsOf fid (fst (play p evs))). status t = Completed"
  using assms
proof (induction evs arbitrary: p)
  case Nil
  then show ?case by simp
next
  case (Cons ev evs)
  have nm: "\<not> carries (isMetadataFor fid) ev" and nc: "\<not> carries (isPauseOrCancel fid) ev"
    using Cons.prems(3,4) by simp_all
  have nr: "\<not> (carries (isResume fid) ev \<and> (\<exists>t\<in>set (recordsOf fid p). hasAllChunks t))"
    and rest: "\<not> reopens fid (fst (step ev p)) evs"
    using Cons.prems(5) by simp_all
  have f: "\<forall>t\<in>set (recordsOf fid p). fired fid m t \<and> status t = Completed"
    using Cons.prems(1,2) by (simp add: settled_def)
  have s: "settled fid m s (fst (step ev p))"
    using settled_step[OF Cons.prems(1) nm nr] by simp
  show ?case
    using Cons.IH[OF s completed_step[OF f nm nc nr] _ _ rest] Cons.prems(3,4)
    unfolding fst_play_Cons by simp
qed

lemma awaiting_play:
  assumes "awaiting fid m p" "0 < totalChunks m"
    and "\<forall>ev\<in>set evs. \<not> carries (isMetadataFor fid) ev" "\<not> reopens fid p evs"
  shows "((awaiting fid m (fst (play p evs)) \<or> absent fid (fst (play p evs)))
            \<and> completions fid (snd (play p evs)) = [])
       \<or> (\<exists>s. settled fid m s (fst (play p evs)) \<and> completions fid (snd (play p evs)) = [s]
              \<and> ((\<forall>ev\<in>set evs. \<not> carries (isPauseOrCancel fid) ev) \<longrightarrow>
                   (\<forall>t\<in>set (recordsOf fid (fst (play p evs))). status t = Completed)))"
  using assms
proof (induction evs arbitrary: p)
  case Nil
  then show ?case by simp
next
  case (Cons ev evs)
  have nm: "\<not> carries (isMetadataFor fid) ev"
    and nms: "\<forall>ev\<in>set evs. \<not> carries (isMetadataFor fid) ev"
    using Cons.prems(3) by simp_all
  have rest: "\<not> reopens fid (fst (step ev p)) evs"
    using Cons.prems(4) by simp
  let ?p = "fst (step ev p)"
  from awaiting_step[OF Cons.prems(1,2) nm] show ?case
  proof (elim disjE conjE exE)
    assume a: "awaiting fid m ?p" and c: "completions fid (snd (step ev p)) = []"
    show ?thesis
      using Cons.IH[OF a Cons.prems(2) nms rest]
      unfolding fst_play_Cons snd_play_Cons completions_append c by (simp, blast)
  next
    assume a: "absent fid ?p" and c: "completions fid (snd (step ev p)) = []"
    show ?thesis
      using absent_play[OF a nms]
      unfolding fst_play_Cons snd_play_Cons completions_append c by simp
  next
    fix s assume a: "settled fid m s ?p" and c: "completions fid (snd (step ev p)) = [s]"
      and st: "\<forall>t\<in>set (recordsOf fid ?p). status t = Completed"
    have "\<forall>t\<in>set (recordsOf fid (fst (play ?p evs))). status t = Completed"
      if "\<forall>ev\<in>set evs. \<not> carries (isPauseOrCancel fid) ev"
      using completed_play[OF a st nms that rest] .
    then show ?thesis
      using settled_play[OF a nms rest]
      unfolding fst_play_Cons snd_play_Cons completions_append c by simp
  qed
qed

lemma step_MetadataMsg:
  "recordsOf fid (fst (step (Data now (MetadataMsg m)) p))
     = recordsOf fid p @ (if id_m m = fid then [newTransfer now m] else [])"
  "timers (fst (step (Data now (MetadataMsg m)) p)) = timers p"
  "posted (fst (step (Data now (MetadataMsg m)) p)) = posted p"
  "completions fid (snd (step (Data now (MetadataMsg m)) p)) = []"
  by (simp_all add: handleData_def recordsOf_def newTransfer_def)

lemma completion_invariant:
  assumes "0 < totalChunks m"
      and "recordsOf (id_m m) p = []"
      and "unscheduled (id_m m) p"
      and "\<forall>ev\<in>set evs. \<not> carries (isMetadataFor (id_m m)) ev"
      and "\<not> reopens (id_m m) p (Data now0 (MetadataMsg m) # evs)"
  shows "length (completions (id_m m) (snd (play p (Data now0 (MetadataMsg m) # evs)))) \<le> 1
       \<and> length (recordsOf (id_m m) (fst (play p (Data now0 (MetadataMsg m) # evs)))) \<le> 1
       \<and> (\<forall>s\<in>set (completions (id_m m) (snd (play p (Data now0 (MetadataMsg m) # evs)))).
             \<exists>mp. chunks s = Some mp \<and> map_size mp = totalChunks m
               \<and> (\<forall>regs. snd (handleCompleteFileReceived True s regs)
                      = Some (ASSEMBLE_FILE (id_m m) (sortedChunks mp) m)))
       \<and> (\<forall>t\<in>set (recordsOf (id_m m) (fst (play p (Data now0 (MetadataMsg m) # evs)))).
             metadata t = m
           \<and> (hasAllChunks t \<longleftrightarrow>
                completions (id_m m) (snd (play p (Data now0 (MetadataMsg m) # evs))) \<noteq> [])
           \<and> (status t = Completed \<longrightarrow> hasAllChunks t)
           \<and> (\<forall>s\<in>set (completions (id_m m) (snd (play p (Data now0 (MetadataMsg m) # evs)))).
                 chunks s = chunks t))
       \<and> (quiet (id_m m) p \<and> (\<forall>ev\<in>set evs. \<not> carries (isPauseOrCancel (id_m m)) ev) \<longrightarrow>
            (if totalChunks m \<le> card (set (eventChunkIndices (id_m m) evs))
             then length (completions (id_m m) (snd (play p (Data now0 (MetadataMsg m) # evs)))) = 1
                \<and> (\<forall>t\<in>set (recordsOf (id_m m) (fst (play p (Data now0 (MetadataMsg m) # evs)))).
                      status t = Completed)
             else completions (id_m m) (snd (play p (Data now0 (MetadataMsg m) # evs))) = []
                \<and> (\<exists>t mp. recordsOf (id_m m) (fst (play p (Data now0 (MetadataMsg m) # evs))) = [t]
                      \<and> status t = Transferring \<and> chunks t = Some mp
                      \<and> fst ` set mp = set (eventChunkIndices (id_m m) evs))))"
proof -
  let ?fid = "id_m m"
  define p1 where "p1 = fst (step (Data now0 (MetadataMsg m)) p)"
  define final where "final = fst (play p (Data now0 (MetadataMsg m) # evs))"
  define cs where "cs = completions ?fid (snd (play p (Data now0 (MetadataMsg m) # evs)))"
  define idxs where "idxs = set (eventChunkIndices ?fid evs)"
  have f: "final = fst (play p1 evs)"
    unfolding final_def p1_def by (rule fst_play_Cons)
  have c: "cs = completions ?fid (snd (play p1 evs))"
    unfolding cs_def p1_def snd_play_Cons completions_append step_MetadataMsg(4) by simp
  have v: "recordsOf ?fid p1 = [newTransfer now0 m]"
    unfolding p1_def step_MetadataMsg(1) using assms(2) by simp
  have u: "unscheduled ?fid p1"
    unfolding p1_def unscheduled_def step_MetadataMsg(2) using assms(3) by (simp add: unscheduled_def)
  have a: "awaiting ?fid m p1"
    using v u pending_newTransfer[of m now0] by (simp add: awaiting_def)
  have nr: "\<not> reopens ?fid p1 evs" using assms(5) unfolding p1_def by simp
  have main: "((awaiting ?fid m final \<or> absent ?fid final) \<and> cs = [])
       \<or> (\<exists>s. settled ?fid m s final \<and> cs = [s]
              \<and> ((\<forall>ev\<in>set evs. \<not> carries (isPauseOrCancel ?fid) ev) \<longrightarrow>
                   (\<forall>t\<in>set (recordsOf ?fid final). status t = Completed)))"
    unfolding f c using awaiting_play[OF a assms(1,4) nr] .
  have d: "if totalChunks m \<le> card idxs then cs \<noteq> []
           else collecting ?fid m idxs final \<and> cs = []"
    if q: "quiet ?fid p" and nc: "\<forall>ev\<in>set evs. \<not> carries (isPauseOrCancel ?fid) ev"
  proof -
    have "quiet ?fid p1"
      unfolding p1_def quiet_def step_MetadataMsg(2,3) using q by (simp add: quiet_def)
    then have col: "collecting ?fid m {} p1"
      using v gathering_newTransfer[of m now0] by (simp add: collecting_def)
    have h: "\<forall>ev\<in>set evs. \<not> carries (isMetadataFor ?fid) ev \<and> \<not> carries (isPauseOrCancel ?fid) ev"
      using assms(4) nc by simp
    show ?thesis
      unfolding f c idxs_def using collecting_play[OF col assms(1) h] by (simp split: if_splits)
  qed
  have goal: "length cs \<le> 1
       \<and> length (recordsOf ?fid final) \<le> 1
       \<and> (\<forall>s\<in>set cs. \<exists>mp. chunks s = Some mp \<and> map_size mp = totalChunks m
               \<and> (\<forall>regs. snd (handleCompleteFileReceived True s regs)
                      = Some (ASSEMBLE_FILE ?fid (sortedChunks mp) m)))
       \<and> (\<forall>t\<in>set (recordsOf ?fid final).
             metadata t = m \<and> (hasAllChunks t \<longleftrightarrow> cs \<noteq> [])
           \<and> (status t = Completed \<longrightarrow> hasAllChunks t)
           \<and> (\<forall>s\<in>set cs. chunks s = chunks t))
       \<and> (quiet ?fid p \<and> (\<forall>ev\<in>set evs. \<not> carries (isPauseOrCancel ?fid) ev) \<longrightarrow>
            (if totalChunks m \<le> card idxs
             then length cs = 1 \<and> (\<forall>t\<in>set (recordsOf ?fid final). status t = Completed)
             else cs = []
                \<and> (\<exists>t mp. recordsOf ?fid final = [t]
                      \<and> status t = Transferring \<and> chunks t = Some mp
                      \<and> fst ` set mp = idxs)))"
    using main
  proof (elim disjE conjE exE)
    assume aw: "awaiting ?fid m final" and c0: "cs = []"
    obtain t where t: "recordsOf ?fid final = [t]" "pending ?fid m t"
      using aw by (auto simp: awaiting_def)
    have inc: "\<not> hasAllChunks t" using pending_incomplete[OF t(2) assms(1)] .
    have t': "metadata t = m" "status t \<noteq> Completed" using t(2) by (simp_all add: pending_def)
    have last: "status t = Transferring \<and> (\<exists>mp. chunks t = Some mp \<and> fst ` set mp = idxs)"
      if "collecting ?fid m idxs final"
      using that t(1) by (auto simp: collecting_def gathering_def)
    have dd: "\<not> totalChunks m \<le> card idxs
        \<and> status t = Transferring \<and> (\<exists>mp. chunks t = Some mp \<and> fst ` set mp = idxs)"
      if "quiet ?fid p" "\<forall>ev\<in>set evs. \<not> carries (isPauseOrCancel ?fid) ev"
      using d[OF that] c0 last by (simp split: if_splits)
    show ?thesis
      unfolding c0 t(1) using inc t' dd by auto
  next
    assume ab: "absent ?fid final" and c0: "cs = []"
    have r: "recordsOf ?fid final = []" using ab by (simp add: absent_def)
    have nocol: "\<not> collecting ?fid m idxs final" using r by (simp add: collecting_def)
    have "False" if "quiet ?fid p" "\<forall>ev\<in>set evs. \<not> carries (isPauseOrCancel ?fid) ev"
      using d[OF that] c0 nocol by (simp split: if_splits)
    then show ?thesis
      unfolding c0 r by auto
  next
    fix s
    assume se: "settled ?fid m s final" and c1: "cs = [s]"
      and st: "(\<forall>ev\<in>set evs. \<not> carries (isPauseOrCancel ?fid) ev) \<longrightarrow>
                 (\<forall>t\<in>set (recordsOf ?fid final). status t = Completed)"
    have s: "id_t s = ?fid" "metadata s = m" "hasAllChunks s" "length (recordsOf ?fid final) \<le> 1"
      and fr: "\<And>t. t \<in> set (recordsOf ?fid final) \<Longrightarrow> fired ?fid m t \<and> chunks t = chunks s"
      using se by (simp_all add: settled_def)
    obtain mp where mp: "chunks s = Some mp" "map_size mp = totalChunks m"
      using s(2,3) by (auto simp: hasAllChunks_def split: option.splits)
    have post: "snd (handleCompleteFileReceived True s regs)
               = Some (ASSEMBLE_FILE ?fid (sortedChunks mp) m)" for regs
      using handleCompleteFileReceived_posts[of s mp regs] s mp by simp
    have rec: "metadata t = m \<and> hasAllChunks t \<and> chunks s = chunks t"
      if "t \<in> set (recordsOf ?fid final)" for t
    proof -
      have "fired ?fid m t" "chunks t = chunks s" using fr[OF that] by simp_all
      then show ?thesis using fired_complete[of ?fid m t] by (simp add: fired_def)
    qed
    have cnt: "totalChunks m \<le> card idxs"
      if "quiet ?fid p" "\<forall>ev\<in>set evs. \<not> carries (isPauseOrCancel ?fid) ev"
      using d[OF that] c1 by (simp split: if_splits)
    have p1: "\<exists>mp. chunks s = Some mp \<and> map_size mp = totalChunks m
               \<and> (\<forall>regs. snd (handleCompleteFileReceived True s regs)
                      = Some (ASSEMBLE_FILE ?fid (sortedChunks mp) m))"
      using mp post by blast
    show ?thesis
      unfolding c1 using s(4) p1 rec st cnt by auto
  qed
  show ?thesis
    using goal unfolding final_def cs_def idxs_def .
qed

lemma reopens_take: "reopens fid p (take n evs) \<Longrightarrow> reopens fid p evs"
proof (induction evs arbitrary: p n)
  case Nil
  then show ?case by simp
next
  case (Cons ev evs)
  show ?case
  proof (cases n)
    case 0
    then show ?thesis using Cons.prems by simp
  next
    case (Suc k)
    then show ?thesis using Cons.prems Cons.IH[of "fst (step ev p)" k] by auto
  qed
qed

text \<open>
  Claim C3 as stated fails. The completion can fire more than once: in the first run
  below, the only chunk of a transfer completes it and schedules the completion call; a
  \<^verbatim>\<open>resume\<close> message puts the completed record back to \<^verbatim>\<open>transferring\<close>; the
  same chunk, delivered again, completes it again and schedules a second call. And a
  record can become completed with fewer than \<open>totalChunks\<close> chunks: in the second
  run, a second metadata message for the id makes a second record; chunk 1 completes
  the first record (2 of 2) and is stored in the second (1 of 2); the completion call,
  when its timer fires, sets every record of the id to \<^verbatim>\<open>completed\<close>.
\<close>

theorem completion_fires_twice_counterexample:
  "length (completions ''file-a'' (snd (play emptyPage
       [Data 0 (MetadataMsg note1), Data 1 (ChunkMsg ''file-a'' 0 [1, 2]),
        Data 2 (ControlMsg ''file-a'' ''resume''), Data 3 (ChunkMsg ''file-a'' 0 [1, 2])]))) = 2
   \<and> map (\<lambda>t. (status t, map_option map_size (chunks t), totalChunks (metadata t)))
       (activeTransfers (fst (play emptyPage
         [Data 0 (MetadataMsg big2), Data 1 (ChunkMsg ''file-c'' 0 part0),
          Data 2 (MetadataMsg big2), Data 3 (ChunkMsg ''file-c'' 1 [5, 6]), Timeout 0])))
       = [(Completed, Some 2, 2), (Completed, Some 1, 2)]"
  by (simp add: handleData_def receiveChunk_def newTransfer_def setStatus_def map_size_def
        percent_def Let_def fire_def removeAt_def handleCompleteFileReceived_def
        processReceivedFile_def)

text \<open>
  Claim C3, amended. Take a transfer of at least one chunk whose metadata message arrives
  when no record and no pending completion call has its id, and let messages, timers
  and replies of the worker follow in any order, with no second metadata message for
  the id and no \<^verbatim>\<open>resume\<close> message for the id handled while a record of the id
  has a complete mapping (one of \<open>totalChunks\<close> entries). Then:
  \<^item> the completion call is scheduled at most once, and the list has at most one
    record of the id;
  \<^item> a scheduled call has a mapping of \<open>totalChunks\<close> entries, passes the check of
    \<^verbatim>\<open>handleCompleteFileReceived\<close> and posts the request to assemble the chunks of
    this mapping, sorted by index;
  \<^item> a record of the id in the list has a complete mapping exactly when the call has
    been scheduled, its mapping is then the one of the call, and it is completed only
    if its mapping is complete;
  \<^item> if moreover nothing is pending for the id at the start, then after any number
    \<open>n\<close> of these events with no \<^verbatim>\<open>pause\<close> or \<^verbatim>\<open>cancel\<close> message for the id
    among them: if the
    distinct chunk indices delivered for the id so far number \<open>totalChunks\<close> or
    more, the call has been scheduled exactly once and the record, while it is in the
    list, is completed; if not, nothing has been scheduled and the one record of the
    id is transferring and holds the indices delivered. So the chunk that brings the
    \<open>totalChunks\<close>-th distinct index is the event that completes the transfer and
    schedules the call.
\<close>

theorem completion_fires_once:
  assumes "0 < totalChunks m"
      and "recordsOf (id_m m) p = []"
      and "unscheduled (id_m m) p"
      and "\<forall>ev\<in>set evs. \<not> carries (isMetadataFor (id_m m)) ev"
      and "\<not> reopens (id_m m) p (Data now0 (MetadataMsg m) # evs)"
  shows "length (completions (id_m m) (snd (play p (Data now0 (MetadataMsg m) # evs)))) \<le> 1
       \<and> length (recordsOf (id_m m) (fst (play p (Data now0 (MetadataMsg m) # evs)))) \<le> 1
       \<and> (\<forall>s\<in>set (completions (id_m m) (snd (play p (Data now0 (MetadataMsg m) # evs)))).
             \<exists>mp. chunks s = Some mp \<and> map_size mp = totalChunks m
               \<and> (\<forall>regs. snd (handleCompleteFileReceived True s regs)
                      = Some (ASSEMBLE_FILE (id_m m) (sortedChunks mp) m)))
       \<and> (\<forall>t\<in>set (recordsOf (id_m m) (fst (play p (Data now0 (MetadataMsg m) # evs)))).
             metadata t = m
           \<and> (hasAllChunks t \<longleftrightarrow>
                completions (id_m m) (snd (play p (Data now0 (MetadataMsg m) # evs))) \<noteq> [])
           \<and> (status t = Completed \<longrightarrow> hasAllChunks t)
           \<and> (\<forall>s\<in>set (completions (id_m m) (snd (play p (Data now0 (MetadataMsg m) # evs)))).
                 chunks s = chunks t))
       \<and> (\<forall>n. quiet (id_m m) p
               \<and> (\<forall>ev\<in>set (take n evs). \<not> carries (isPauseOrCancel (id_m m)) ev) \<longrightarrow>
            (if totalChunks m \<le> card (set (eventChunkIndices (id_m m) (take n evs)))
             then length (completions (id_m m)
                     (snd (play p (Data now0 (MetadataMsg m) # take n evs)))) = 1
                \<and> (\<forall>t\<in>set (recordsOf (id_m m)
                            (fst (play p (Data now0 (MetadataMsg m) # take n evs)))).
                      status t = Completed)
             else completions (id_m m)
                     (snd (play p (Data now0 (MetadataMsg m) # take n evs))) = []
                \<and> (\<exists>t mp. recordsOf (id_m m)
                              (fst (play p (Data now0 (MetadataMsg m) # take n evs))) = [t]
                      \<and> status t = Transferring \<and> chunks t = Some mp
                      \<and> fst ` set mp = set (eventChunkIndices (id_m m) (take n evs)))))"
proof -
  have pre: "\<forall>ev\<in>set (take n evs). \<not> carries (isMetadataFor (id_m m)) ev" for n
    using assms(4) by (auto dest: in_set_takeD)
  have "reopens (id_m m) p (Data now0 (MetadataMsg m) # evs)"
    if "reopens (id_m m) p (Data now0 (MetadataMsg m) # take n evs)" for n
    using reopens_take[of "id_m m" p "Suc n" "Data now0 (MetadataMsg m) # evs"] that by simp
  then have nr: "\<not> reopens (id_m m) p (Data now0 (MetadataMsg m) # take n evs)" for n
    using assms(5) by blast
  note whole = completion_invariant[OF assms]
  have a: "\<forall>n. quiet (id_m m) p
               \<and> (\<forall>ev\<in>set (take n evs). \<not> carries (isPauseOrCancel (id_m m)) ev) \<longrightarrow>
            (if totalChunks m \<le> card (set (eventChunkIndices (id_m m) (take n evs)))
             then length (completions (id_m m)
                     (snd (play p (Data now0 (MetadataMsg m) # take n evs)))) = 1
                \<and> (\<forall>t\<in>set (recordsOf (id_m m)
                            (fst (play p (Data now0 (MetadataMsg m) # take n evs)))).
                      status t = Completed)
             else completions (id_m m)
                     (snd (play p (Data now0 (MetadataMsg m) # take n evs))) = []
                \<and> (\<exists>t mp. recordsOf (id_m m)
                              (fst (play p (Data now0 (MetadataMsg m) # take n evs))) = [t]
                      \<and> status t = Transferring \<and> chunks t = Some mp
                      \<and> fst ` set mp = set (eventChunkIndices (id_m m) (take n evs))))"
  proof
    fix n
    from completion_invariant[OF assms(1,2,3) pre[of n] nr[of n]] show "quiet (id_m m) p
               \<and> (\<forall>ev\<in>set (take n evs). \<not> carries (isPauseOrCancel (id_m m)) ev) \<longrightarrow>
            (if totalChunks m \<le> card (set (eventChunkIndices (id_m m) (take n evs)))
             then length (completions (id_m m)
                     (snd (play p (Data now0 (MetadataMsg m) # take n evs)))) = 1
                \<and> (\<forall>t\<in>set (recordsOf (id_m m)
                            (fst (play p (Data now0 (MetadataMsg m) # take n evs)))).
                      status t = Completed)
             else completions (id_m m)
                     (snd (play p (Data now0 (MetadataMsg m) # take n evs))) = []
                \<and> (\<exists>t mp. recordsOf (id_m m)
                              (fst (play p (Data now0 (MetadataMsg m) # take n evs))) = [t]
                      \<and> status t = Transferring \<and> chunks t = Some mp
                      \<and> fst ` set mp = set (eventChunkIndices (id_m m) (take n evs))))"
      by (elim conjE)
  qed
  from whole have b: "length (completions (id_m m) (snd (play p (Data now0 (MetadataMsg m) # evs)))) \<le> 1
       \<and> length (recordsOf (id_m m) (fst (play p (Data now0 (MetadataMsg m) # evs)))) \<le> 1
       \<and> (\<forall>s\<in>set (completions (id_m m) (snd (play p (Data now0 (MetadataMsg m) # evs)))).
             \<exists>mp. chunks s = Some mp \<and> map_size mp = totalChunks m
               \<and> (\<forall>regs. snd (handleCompleteFileReceived True s regs)
                      = Some (ASSEMBLE_FILE (id_m m) (sortedChunks mp) m)))
       \<and> (\<forall>t\<in>set (recordsOf (id_m m) (fst (play p (Data now0 (MetadataMsg m) # evs)))).
             metadata t = m
           \<and> (hasAllChunks t \<longleftrightarrow>
                completions (id_m m) (snd (play p (Data now0 (MetadataMsg m) # evs))) \<noteq> [])
           \<and> (status t = Completed \<longrightarrow> hasAllChunks t)
           \<and> (\<forall>s\<in>set (completions (id_m m) (snd (play p (Data now0 (MetadataMsg m) # evs)))).
                 chunks s = chunks t))"
    by (elim conjE) (intro conjI)
  show ?thesis using a b by (elim conjE) (intro conjI)
qed

theorem completion_fires_once_witness:
  "length (completions ''file-c'' (snd (play
      \<lparr>activeTransfers = [newTransfer 0 other1], timers = [], posted = [], workerInitialised = True\<rparr>
      [Data 1 (MetadataMsg big2), Data 2 (ChunkMsg ''file-c'' 0 part0),
       Data 3 (ControlMsg ''file-c'' ''pause''), Data 4 (ControlMsg ''file-c'' ''resume''),
       Data 5 (ChunkMsg ''file-c'' 1 [5, 6]), Data 6 (ChunkMsg ''file-c'' 1 [5, 6]),
       Timeout 0, WorkerReply 0]))) \<le> 1
   \<and> completions ''file-c'' (snd (play
      \<lparr>activeTransfers = [newTransfer 0 other1], timers = [], posted = [], workerInitialised = True\<rparr>
      [Data 1 (MetadataMsg big2),
       Data 2 (ChunkMsg ''file-c'' 1 [5, 6]),
       Data 3 (ControlMsg ''file-c'' ''resume''),
       Data 4 (ChunkMsg ''file-b'' 0 [9]),
       Timeout 0,
       Data 5 (ChunkMsg ''file-c'' 1 [5, 6])])) = []
   \<and> length (completions ''file-c'' (snd (play
      \<lparr>activeTransfers = [newTransfer 0 other1], timers = [], posted = [], workerInitialised = True\<rparr>
      [Data 1 (MetadataMsg big2),
       Data 2 (ChunkMsg ''file-c'' 1 [5, 6]),
       Data 3 (ControlMsg ''file-c'' ''resume''),
       Data 4 (ChunkMsg ''file-b'' 0 [9]),
       Timeout 0,
       Data 5 (ChunkMsg ''file-c'' 1 [5, 6]),
       Data 6 (ChunkMsg ''file-c'' 0 part0)]))) = 1"
proof -
  let ?p = "\<lparr>activeTransfers = [newTransfer 0 other1], timers = [], posted = [], workerInitialised = True\<rparr>"
  let ?evs = "[Data 2 (ChunkMsg ''file-c'' 0 part0),
       Data 3 (ControlMsg ''file-c'' ''pause''), Data 4 (ControlMsg ''file-c'' ''resume''),
       Data 5 (ChunkMsg ''file-c'' 1 [5, 6]), Data 6 (ChunkMsg ''file-c'' 1 [5, 6]),
       Timeout 0, WorkerReply 0]"
  let ?evs2 = "[Data 2 (ChunkMsg ''file-c'' 1 [5, 6]),
       Data 3 (ControlMsg ''file-c'' ''resume''),
       Data 4 (ChunkMsg ''file-b'' 0 [9]),
       Timeout 0,
       Data 5 (ChunkMsg ''file-c'' 1 [5, 6]),
       Data 6 (ChunkMsg ''file-c'' 0 part0),
       Data 7 (ChunkMsg ''file-c'' 0 part0)]"
  have h1: "0 < totalChunks big2" by simp
  have h2: "recordsOf (id_m big2) ?p = []" by (simp add: recordsOf_def newTransfer_def)
  have h3: "unscheduled (id_m big2) ?p" by (simp add: unscheduled_def)
  have h4: "\<forall>ev\<in>set ?evs. \<not> carries (isMetadataFor (id_m big2)) ev" by simp
  have h5: "\<not> reopens (id_m big2) ?p (Data 1 (MetadataMsg big2) # ?evs)"
    by (simp add: handleData_def receiveChunk_def newTransfer_def setStatus_def map_size_def
        percent_def Let_def fire_def removeAt_def handleCompleteFileReceived_def
        processReceivedFile_def recordsOf_def hasAllChunks_def)
  have g4: "\<forall>ev\<in>set ?evs2. \<not> carries (isMetadataFor (id_m big2)) ev" by simp
  have g5: "\<not> reopens (id_m big2) ?p (Data 1 (MetadataMsg big2) # ?evs2)"
    by (simp add: handleData_def receiveChunk_def newTransfer_def setStatus_def map_size_def
        percent_def Let_def fire_def removeAt_def handleCompleteFileReceived_def
        processReceivedFile_def recordsOf_def hasAllChunks_def)
  have g6: "quiet (id_m big2) ?p" by (simp add: quiet_def)
  have a: "length (completions ''file-c'' (snd (play ?p (Data 1 (MetadataMsg big2) # ?evs)))) \<le> 1"
    using completion_fires_once[OF h1 h2 h3 h4 h5] by simp
  have all: "\<forall>n. quiet (id_m big2) ?p
               \<and> (\<forall>ev\<in>set (take n ?evs2). \<not> carries (isPauseOrCancel (id_m big2)) ev) \<longrightarrow>
            (if totalChunks big2 \<le> card (set (eventChunkIndices (id_m big2) (take n ?evs2)))
             then length (completions (id_m big2)
                     (snd (play ?p (Data 1 (MetadataMsg big2) # take n ?evs2)))) = 1
                \<and> (\<forall>t\<in>set (recordsOf (id_m big2)
                            (fst (play ?p (Data 1 (MetadataMsg big2) # take n ?evs2)))).
                      status t = Completed)
             else completions (id_m big2)
                     (snd (play ?p (Data 1 (MetadataMsg big2) # take n ?evs2))) = []
                \<and> (\<exists>t mp. recordsOf (id_m big2)
                              (fst (play ?p (Data 1 (MetadataMsg big2) # take n ?evs2))) = [t]
                      \<and> status t = Transferring \<and> chunks t = Some mp
                      \<and> fst ` set mp = set (eventChunkIndices (id_m big2) (take n ?evs2))))"
    using completion_fires_once[OF h1 h2 h3 g4 g5] by (elim conjE)
  have t5: "take 5 ?evs2 = [Data 2 (ChunkMsg ''file-c'' 1 [5, 6]),
       Data 3 (ControlMsg ''file-c'' ''resume''),
       Data 4 (ChunkMsg ''file-b'' 0 [9]),
       Timeout 0,
       Data 5 (ChunkMsg ''file-c'' 1 [5, 6])]"
    by simp
  have t6: "take 6 ?evs2 = [Data 2 (ChunkMsg ''file-c'' 1 [5, 6]),
       Data 3 (ControlMsg ''file-c'' ''resume''),
       Data 4 (ChunkMsg ''file-b'' 0 [9]),
       Timeout 0,
       Data 5 (ChunkMsg ''file-c'' 1 [5, 6]),
       Data 6 (ChunkMsg ''file-c'' 0 part0)]"
    by simp
  have b: "completions ''file-c'' (snd (play ?p [Data 1 (MetadataMsg big2),
       Data 2 (ChunkMsg ''file-c'' 1 [5, 6]),
       Data 3 (ControlMsg ''file-c'' ''resume''),
       Data 4 (ChunkMsg ''file-b'' 0 [9]),
       Timeout 0,
       Data 5 (ChunkMsg ''file-c'' 1 [5, 6])])) = []"
    using all[rule_format, of 5] g6 unfolding t5 by simp
  have c: "length (completions ''file-c'' (snd (play ?p [Data 1 (MetadataMsg big2),
       Data 2 (ChunkMsg ''file-c'' 1 [5, 6]),
       Data 3 (ControlMsg ''file-c'' ''resume''),
       Data 4 (ChunkMsg ''file-b'' 0 [9]),
       Timeout 0,
       Data 5 (ChunkMsg ''file-c'' 1 [5, 6]),
       Data 6 (ChunkMsg ''file-c'' 0 part0)]))) = 1"
    using all[rule_format, of 6] g6 unfolding t6 by simp
  show ?thesis using a b c by blast
qed

section \<open>Duplicate chunks\<close>

lemma map_get_map_set: "map_get (map_set k v mp) j = (if j = k then Some v else map_get mp j)"
  by (simp add: map_get_def map_of_map_set)

lemma keys_list_map_set: "map_get mp k = Some old \<Longrightarrow> map fst (map_set k v mp) = map fst mp"
  by (induction mp) (auto simp: map_get_def split: if_splits)

lemma storedBytes_map_set:
  "map_get mp k = Some old \<Longrightarrow> storedBytes (map_set k v mp) + length old = storedBytes mp + length v"
  by (induction mp) (auto simp: map_get_def storedBytes_def split: if_splits)

text \<open>
  Claim C10 as stated fails in one point: the status is computed again from the size of
  the mapping. Below, a record is in status \<^verbatim>\<open>transferring\<close> with a complete
  mapping (a \<^verbatim>\<open>resume\<close> message after the completion), and the duplicate of its
  chunk moves it to \<^verbatim>\<open>completed\<close>.
\<close>

theorem duplicate_chunk_completes_counterexample:
  "map status (fst (run [] [(0, MetadataMsg note1), (1, ChunkMsg ''file-a'' 0 [1, 2]),
                            (2, ControlMsg ''file-a'' ''resume'')])) = [Transferring]
   \<and> map chunks (fst (run [] [(0, MetadataMsg note1), (1, ChunkMsg ''file-a'' 0 [1, 2]),
                            (2, ControlMsg ''file-a'' ''resume'')])) = [Some [(0, [1, 2])]]
   \<and> map status (fst (run [] [(0, MetadataMsg note1), (1, ChunkMsg ''file-a'' 0 [1, 2]),
                            (2, ControlMsg ''file-a'' ''resume''),
                            (3, ChunkMsg ''file-a'' 0 [1, 2])])) = [Completed]"
  by (simp add: handleData_def receiveChunk_def newTransfer_def setStatus_def map_size_def percent_def Let_def)

text \<open>
  Claim C10, amended. When a chunk message arrives for a record in status
  \<^verbatim>\<open>transferring\<close> whose mapping holds the index already: the data of this index
  is replaced and no other entry changes; the keys and the size of the mapping are the
  same; \<open>receivedSize\<close> grows by the length of the duplicate, so it exceeds the bytes
  the mapping holds by the length of the data replaced, on top of what it exceeded them
  by before, and can exceed \<open>metadata.size\<close> (the instance below); progress and status
  are computed again from the unchanged size: progress is
  \<open>(size / totalChunks) * 100\<close>, the value the chunk stored before had given it, and
  the status stays \<^verbatim>\<open>transferring\<close> as long as the mapping is not complete.
\<close>

theorem duplicate_chunk_counted_again:
  assumes "k < length ts" "id_t (ts ! k) = fid" "status (ts ! k) = Transferring"
      and "chunks (ts ! k) = Some mp" "map_get mp idx = Some old"
  shows "\<exists>mp'. chunks (fst (handleData now ts (ChunkMsg fid idx dat)) ! k) = Some mp'
       \<and> map_get mp' idx = Some dat
       \<and> (\<forall>j. j \<noteq> idx \<longrightarrow> map_get mp' j = map_get mp j)
       \<and> map fst mp' = map fst mp
       \<and> map_size mp' = map_size mp
       \<and> receivedSize (fst (handleData now ts (ChunkMsg fid idx dat)) ! k)
           = receivedSize (ts ! k) + length dat
       \<and> receivedSize (fst (handleData now ts (ChunkMsg fid idx dat)) ! k) + storedBytes mp
           = receivedSize (ts ! k) + storedBytes mp' + length old
       \<and> progress (fst (handleData now ts (ChunkMsg fid idx dat)) ! k)
           = percent (map_size mp) (totalChunks (metadata (ts ! k)))
       \<and> status (fst (handleData now ts (ChunkMsg fid idx dat)) ! k)
           = (if map_size mp = totalChunks (metadata (ts ! k)) then Completed else Transferring)"
proof -
  let ?t' = "fst (handleData now ts (ChunkMsg fid idx dat)) ! k"
  let ?mp' = "map_set idx dat mp"
  have t': "?t' = fst (receiveChunk fid idx dat (ts ! k))"
    using assms(1) by (simp add: handleData_def)
  have keys: "map fst ?mp' = map fst mp" using assms(5) by (rule keys_list_map_set)
  then have "length (map fst ?mp') = length (map fst mp)" by simp
  then have sz: "map_size ?mp' = map_size mp" by (simp add: map_size_def)
  have sb: "storedBytes ?mp' + length old = storedBytes mp + length dat"
    using assms(5) by (rule storedBytes_map_set)
  have c: "chunks ?t' = Some ?mp'"
    and r: "receivedSize ?t' = receivedSize (ts ! k) + length dat"
    and p: "progress ?t' = percent (map_size mp) (totalChunks (metadata (ts ! k)))"
    and s: "status ?t' = (if map_size mp = totalChunks (metadata (ts ! k)) then Completed else Transferring)"
    unfolding t' using assms(2,3,4) sz by (simp_all add: receiveChunk_def Let_def)
  have "receivedSize ?t' + storedBytes mp = receivedSize (ts ! k) + storedBytes ?mp' + length old"
    using r sb by simp
  then show ?thesis
    using c r p s keys sz by (intro exI[of _ ?mp']) (simp add: map_get_map_set)
qed

theorem duplicate_chunk_counted_again_witness:
  "receivedSize (fst (handleData 2
       (fst (run [] [(0, MetadataMsg big2), (1, ChunkMsg ''file-c'' 0 (replicate 16384 1))]))
       (ChunkMsg ''file-c'' 0 (replicate 16384 1))) ! 0) = 32768
   \<and> status (fst (handleData 2
       (fst (run [] [(0, MetadataMsg big2), (1, ChunkMsg ''file-c'' 0 (replicate 16384 1))]))
       (ChunkMsg ''file-c'' 0 (replicate 16384 1))) ! 0) = Transferring
   \<and> progress (fst (handleData 2
       (fst (run [] [(0, MetadataMsg big2), (1, ChunkMsg ''file-c'' 0 (replicate 16384 1))]))
       (ChunkMsg ''file-c'' 0 (replicate 16384 1))) ! 0) = Num 50
   \<and> size_m big2 = 16386"
proof -
  let ?ts = "fst (run [] [(0, MetadataMsg big2), (1, ChunkMsg ''file-c'' 0 (replicate 16384 1))])"
  have ts: "?ts = [\<lparr>id_t = ''file-c'', metadata = big2, progress = Num 50, status = Transferring,
       direction = Receiving, file_t = None, chunks = Some [(0, replicate 16384 1)],
       receivedSize = 16384, startTime = 0, pausedAt = None, error_t = None\<rparr>]"
    by (simp add: handleData_def receiveChunk_def newTransfer_def map_size_def percent_def Let_def)
  have h: "0 < length ?ts" "id_t (?ts ! 0) = ''file-c''" "status (?ts ! 0) = Transferring"
      "chunks (?ts ! 0) = Some [(0, replicate 16384 1)]"
      "map_get [(0, replicate 16384 1)] (0::int) = Some (replicate 16384 (1::8 word))"
    unfolding ts by (simp_all add: map_get_def)
  have m: "metadata (?ts ! 0) = big2" "receivedSize (?ts ! 0) = 16384"
    unfolding ts by simp_all
  show ?thesis
    using duplicate_chunk_counted_again[OF h, of 2 "replicate 16384 1"] m
    by (auto simp: map_size_def percent_def)
qed

end
